theory Spec2Isabelle
  imports Complex_Main "HOL-Library.Sublist" "HOL-Library.Word"
begin

unbundle bit_operations_syntax

section \<open>Strings of the Go runtime\<close>

text \<open>
  A Go string is a sequence of bytes; \<^typ>\<open>string\<close> lists them. The functions of package
  \<^verbatim>\<open>strings\<close> that the task facade calls are written out on bytes.
\<close>

text \<open>
  \<^verbatim>\<open>unicode.IsSpace\<close> on the rune that starts the string: the width in bytes of that
  rune when it is white space. The ASCII set is tab, LF, VT, FF, CR and space; beyond it
  U+0085, U+00A0, U+1680, U+2000..U+200A, U+2028, U+2029, U+202F, U+205F and U+3000, in
  their UTF-8 encodings.
\<close>

definition space_width :: "string \<Rightarrow> nat option" where
  "space_width s =
     (case map of_char s :: nat list of
        [] \<Rightarrow> None
      | b # r \<Rightarrow>
          if b \<in> {9, 10, 11, 12, 13, 32} then Some 1
          else if b = 0xC2 then
            (case r of d # _ \<Rightarrow> if d = 0x85 \<or> d = 0xA0 then Some 2 else None | [] \<Rightarrow> None)
          else if b = 0xE1 then
            (case r of d # e # _ \<Rightarrow> if d = 0x9A \<and> e = 0x80 then Some 3 else None | _ \<Rightarrow> None)
          else if b = 0xE2 then
            (case r of
               d # e # _ \<Rightarrow>
                 if d = 0x80 \<and> (0x80 \<le> e \<and> e \<le> 0x8A \<or> e = 0xA8 \<or> e = 0xA9 \<or> e = 0xAF)
                    \<or> d = 0x81 \<and> e = 0x9F
                 then Some 3 else None
             | _ \<Rightarrow> None)
          else if b = 0xE3 then
            (case r of d # e # _ \<Rightarrow> if d = 0x80 \<and> e = 0x80 then Some 3 else None | _ \<Rightarrow> None)
          else None)"

text \<open>The same test on the rune that ends the string (\<^verbatim>\<open>utf8.DecodeLastRuneInString\<close>).\<close>

definition space_width_end :: "string \<Rightarrow> nat option" where
  "space_width_end s =
     (let n = length s in
      if 1 \<le> n \<and> space_width (drop (n - 1) s) = Some 1 then Some 1
      else if 2 \<le> n \<and> space_width (drop (n - 2) s) = Some 2 then Some 2
      else if 3 \<le> n \<and> space_width (drop (n - 3) s) = Some 3 then Some 3
      else None)"

function TrimLeftSpace :: "string \<Rightarrow> string" where
  "TrimLeftSpace s =
     (case space_width s of
        None \<Rightarrow> s
      | Some k \<Rightarrow> if 0 < k \<and> k \<le> length s then TrimLeftSpace (drop k s) else s)"
  by pat_completeness auto
termination
  by (relation "measure length") auto

function TrimRightSpace :: "string \<Rightarrow> string" where
  "TrimRightSpace s =
     (case space_width_end s of
        None \<Rightarrow> s
      | Some k \<Rightarrow> if 0 < k \<and> k \<le> length s then TrimRightSpace (take (length s - k) s) else s)"
  by pat_completeness auto
termination
  by (relation "measure length") auto

text \<open>\<^verbatim>\<open>strings.TrimSpace\<close>.\<close>

definition TrimSpace :: "string \<Rightarrow> string" where
  "TrimSpace s = TrimRightSpace (TrimLeftSpace s)"

text \<open>\<^verbatim>\<open>strings.ReplaceAll(s, "\r\n", "\n")\<close>.\<close>

fun ReplaceAll_CRLF :: "string \<Rightarrow> string" where
  "ReplaceAll_CRLF (a # b # s) =
     (if a = CHR 0x0D \<and> b = CHR 0x0A then CHR 0x0A # ReplaceAll_CRLF s
      else a # ReplaceAll_CRLF (b # s))"
| "ReplaceAll_CRLF s = s"

section \<open>The process, its environment and its terminal\<close>

text \<open>
  The settings of \<^verbatim>\<open>configflags.ConfigFlags\<close> that the task facade and the vault read
  (\<^verbatim>\<open>Auth\<close>, \<^verbatim>\<open>Hosts\<close>, \<^verbatim>\<open>Run\<close>, \<^verbatim>\<open>Timeout\<close>).
\<close>

record ConfigFlags =
  Auth_User :: string
  Auth_Password :: string
  Auth_AskPass :: bool
  Auth_PassFile :: string
  Auth_IdentityFiles :: "string list"
  Auth_Passphrase :: string
  Auth_VaultPassFile :: string
  Hosts_Inventory :: string
  Hosts_Port :: int
  Run_Sudo :: bool
  Timeout_Task :: int

text \<open>\<^verbatim>\<open>inventory.Host\<close>, as \<^verbatim>\<open>getAllHosts\<close> reads and updates it.\<close>

record inv_host =
  inv_Alias :: string
  inv_Host :: string
  inv_Port :: int
  inv_User :: string
  inv_Password :: string
  inv_Keys :: "string list"
  inv_Passphrase :: string

text \<open>
  \<^verbatim>\<open>ssh.Signer\<close> values are named by a string; an \<^verbatim>\<open>ssh.AuthMethod\<close> is one of the two
  the facade builds, \<^verbatim>\<open>ssh.PublicKeys(signers...)\<close> and \<^verbatim>\<open>ssh.Password(p)\<close>.
\<close>

type_synonym signer = string

datatype auth_method = AuthPublicKeys "signer list" | AuthPassword string

text \<open>\<^verbatim>\<open>batchssh.Host\<close>.\<close>

record ssh_host =
  Alias :: string
  Host :: string
  Port :: int
  User :: string
  Password :: string
  Keys :: "string list"
  SSHAuths :: "auth_method list"

text \<open>\<^verbatim>\<open>batchssh.Result\<close>, one per host, as the result channel of the client delivers it.\<close>

record batch_result =
  r_Host :: string
  r_Status :: string
  r_Message :: string

text \<open>The three results of \<^verbatim>\<open>ssh.ParsePrivateKey\<close> that \<^verbatim>\<open>getSigner\<close> tells apart.\<close>

datatype parse_result = Parsed signer | PassphraseMissing string | ParseFailed string

text \<open>
  What the process reads from outside itself, and the packages that these functions call
  and that are modelled no further (\<^verbatim>\<open>aes\<close>, \<^verbatim>\<open>inventory\<close>, \<^verbatim>\<open>batchssh\<close>, \<^verbatim>\<open>expandhost\<close>,
  \<^verbatim>\<open>ssh\<close>, \<^verbatim>\<open>agent\<close>), taken as parameters. A Go result \<^verbatim>\<open>(v, err)\<close> is a sum, \<^term>\<open>Inl\<close>
  carrying the text of the error. \<^term>\<open>os_Stat\<close> gives the mode of a file, \<^term>\<open>exec_Output\<close>
  the standard output of \<^verbatim>\<open>exec.Command(bin).Output()\<close>, and \<^term>\<open>ssh_BatchRun\<close> what the
  result channel of \<^verbatim>\<open>sshClient.BatchRun\<close> delivers before it is closed.
\<close>

record env =
  Config :: ConfigFlags
  os_Stat :: "string \<Rightarrow> string + 32 word"
  ReadFile :: "string \<Rightarrow> string + string"
  exec_Output :: "string \<Rightarrow> string + string"
  Getenv :: "string \<Rightarrow> string"
  IsAES256CipherText :: "string \<Rightarrow> bool"
  AES256Decode :: "string \<Rightarrow> string \<Rightarrow> string + string"
  ParsePrivateKey :: "string \<Rightarrow> parse_result"
  ParseEncryptedPrivateKey :: "string \<Rightarrow> string \<Rightarrow> string + signer"
  agent_Dial :: "string \<Rightarrow> string option"
  agent_Signers :: "string + signer list"
  PatternToHosts :: "string \<Rightarrow> string + string list"
  inventory_Parse :: "string \<Rightarrow> string option"
  inventory_GetAllHosts :: "inv_host list"
  inventory_GetHostsByGroup :: "string \<Rightarrow> inv_host list option"
  inventory_GetHostByAlias :: "string \<Rightarrow> inv_host option"
  inventory_DeDuplHosts :: "inv_host list \<Rightarrow> inv_host list"
  ssh_BatchRun :: "ssh_host list \<Rightarrow> batch_result list"
  SuccessIdentifier :: string

text \<open>
  The part of the world that a call changes: the terminal, and the trace of what the
  process did at the terminal and with the vault password file and the login password
  file (reads of identity files are not traced). \<^term>\<open>tty\<close> lists the results that
  successive calls of \<^verbatim>\<open>term.ReadPassword(0)\<close> will give (\<^term>\<open>Inl\<close> an error); a read after
  the last one fails with \<^verbatim>\<open>EOF\<close>, as on a closed terminal.
\<close>

datatype event =
    EvStat string
  | EvExec string
  | EvReadFile string
  | EvPrompt string
  | EvPrint string

record world =
  tty :: "(string + string) list"
  trace :: "event list"

text \<open>A call either returns a value or ends the process with a message.\<close>

datatype 'a outcome = Exited string | Returned 'a

type_synonym 'a io = "world \<Rightarrow> 'a outcome \<times> world"

definition return_io :: "'a \<Rightarrow> 'a io" where
  "return_io x w = (Returned x, w)"

text \<open>
  Modelled from the spec: \<^verbatim>\<open>util.CheckErr\<close> of package \<^verbatim>\<open>pkg/util\<close>, whose source is
  missing, called with an error or message that is not \<^verbatim>\<open>nil\<close>. The spec has fatal errors
  \<open>terminate the process with non-zero exit\<close>, and the callers rely on it:
  \<^verbatim>\<open>getVaultPasswordFromFile\<close> returns the password right after it has called
  \<^verbatim>\<open>util.CheckErr\<close> with the message that the vault password file cannot be empty. A call
  of \<^verbatim>\<open>util.CheckErr\<close> with \<^verbatim>\<open>nil\<close> returns and is left out where it stands.
\<close>

definition CheckErr :: "string \<Rightarrow> 'a io" where
  "CheckErr msg w = (Exited msg, w)"

definition bind_io :: "'a io \<Rightarrow> ('a \<Rightarrow> 'b io) \<Rightarrow> 'b io" where
  "bind_io m f w = (case m w of (Exited msg, w') \<Rightarrow> (Exited msg, w') | (Returned x, w') \<Rightarrow> f x w')"

definition emit :: "event list \<Rightarrow> unit io" where
  "emit evs w = (Returned (), w\<lparr>trace := trace w @ evs\<rparr>)"

text \<open>\<^verbatim>\<open>term.ReadPassword(0)\<close>.\<close>

definition ReadPassword :: "(string + string) io" where
  "ReadPassword w =
     (case tty w of
        [] \<Rightarrow> (Returned (Inl ''EOF''), w)
      | r # rest \<Rightarrow> (Returned r, w\<lparr>tty := rest\<rparr>))"

definition quote :: "string \<Rightarrow> string" where
  "quote s = CHR 0x27 # s @ [CHR 0x27]"

section \<open>The vault password (package vault)\<close>

text \<open>\<^verbatim>\<open>isExectuable\<close>: \<^verbatim>\<open>f.Mode().Perm()&0111 != 0\<close>; \<^verbatim>\<open>Perm\<close> masks with \<^verbatim>\<open>0777\<close>.\<close>

definition Perm :: "32 word \<Rightarrow> 32 word" where
  "Perm m = m AND 0x1FF"

definition isExectuable :: "env \<Rightarrow> string \<Rightarrow> string + bool" where
  "isExectuable e file =
     (case os_Stat e file of
        Inl err \<Rightarrow> Inl err
      | Inr mode \<Rightarrow> Inr (Perm mode AND 0x49 \<noteq> 0))"

text \<open>\<^verbatim>\<open>getPasswordFromPrompt\<close> of package vault: the prompt goes to stderr, a line break
  to stdout after a successful read.\<close>

definition vault_getPasswordFromPrompt :: "string \<Rightarrow> (string + string) io" where
  "vault_getPasswordFromPrompt prompt =
     bind_io (emit [EvPrompt prompt]) (\<lambda>_.
     bind_io ReadPassword (\<lambda>r.
       case r of
         Inl err \<Rightarrow> return_io (Inl err)
       | Inr password \<Rightarrow> bind_io (emit [EvPrint [CHR 0x0A]]) (\<lambda>_. return_io (Inr password))))"

definition getVaultPasswordFromFile :: "env \<Rightarrow> string io" where
  "getVaultPasswordFromFile e =
     (let vaultPassFile = Auth_VaultPassFile (Config e) in
      if vaultPassFile \<noteq> [] then
        bind_io (emit [EvStat vaultPassFile]) (\<lambda>_.
        case isExectuable e vaultPassFile of
          Inl err \<Rightarrow> CheckErr err
        | Inr ok \<Rightarrow>
            if ok then
              (let bin = ''./'' @ vaultPassFile in
               bind_io (emit [EvExec bin]) (\<lambda>_.
               case exec_Output e bin of
                 Inl err1 \<Rightarrow>
                   CheckErr (''problem executing file '' @ quote vaultPassFile @ '': '' @ err1 @
                     '', if this is not a executable file, remove the executable bit from the file'')
               | Inr out \<Rightarrow>
                   (let vaultPass = TrimSpace out in
                    if vaultPass = [] then
                      CheckErr (''problem executing file '' @ quote vaultPassFile @
                        '': output cannot be empty, if this is not a script, '' @
                        ''remove the executable bit from the file'')
                    else return_io vaultPass)))
            else
              bind_io (emit [EvReadFile vaultPassFile]) (\<lambda>_.
              case ReadFile e vaultPassFile of
                Inl err \<Rightarrow>
                  CheckErr (''read vault password file '' @ quote vaultPassFile @ '' failed: '' @ err)
              | Inr passwordContent \<Rightarrow>
                  (let vaultPass = TrimSpace passwordContent in
                   if vaultPass = [] then CheckErr ''vault password file cannot be empty''
                   else if prefix ''#!/'' vaultPass then
                     CheckErr (quote vaultPassFile @
                       '' looks like a script file, please add the executable bit to this file'')
                   else return_io vaultPass)))
      else return_io [])"

text \<open>The \<^verbatim>\<open>for\<close> loop of \<^verbatim>\<open>GetVaultPassword\<close>: one turn per terminal read.\<close>

function GetVaultPassword_loop :: "string io" where
  "GetVaultPassword_loop w =
     (case vault_getPasswordFromPrompt ''Vault password: '' w of
        (Exited msg, w') \<Rightarrow> (Exited msg, w')
      | (Returned (Inl err), w') \<Rightarrow>
          CheckErr (''get vault password from terminal prompt '' @ quote ''Vault password: '' @
            '' failed: '' @ err) w'
      | (Returned (Inr password), w') \<Rightarrow>
          if password \<noteq> [] then (Returned password, w')
          else GetVaultPassword_loop (snd (emit [EvPrint ''password can not be null, retry\<newline>''] w')))"
  by pat_completeness auto
termination
  by (relation "measure (\<lambda>w. length (tty w))")
     (auto simp: vault_getPasswordFromPrompt_def bind_io_def emit_def ReadPassword_def return_io_def
           split: list.splits sum.splits)

definition GetVaultPassword :: "env \<Rightarrow> string io" where
  "GetVaultPassword e =
     bind_io (getVaultPasswordFromFile e) (\<lambda>password.
       if password \<noteq> [] then return_io password else GetVaultPassword_loop)"

section \<open>The task facade (package sshtask)\<close>

text \<open>The fields of \<^verbatim>\<open>Task\<close> that these functions use; \<^verbatim>\<open>id\<close> and \<^verbatim>\<open>err\<close> are
  \<^term>\<open>t_id\<close> and \<^term>\<open>t_err\<close>. \<^verbatim>\<open>defaultPass\<close> is a pointer that only the task holds.\<close>

record Task =
  t_id :: string
  sshAgent :: "string option"
  defaultUser :: string
  defaultPass :: string
  defaultIdentityFiles :: "string list"
  defaultSSHAuthMethods :: "auth_method list"
  argHosts :: "string list"
  t_err :: "string option"

text \<open>\<^verbatim>\<open>getPasswordFromPrompt\<close> of package sshtask: a failed read is fatal.\<close>

definition getPasswordFromPrompt :: "string \<Rightarrow> string io" where
  "getPasswordFromPrompt loginUser =
     bind_io (emit [EvPrompt (''Password for '' @ loginUser @ '': '')]) (\<lambda>_.
     bind_io ReadPassword (\<lambda>r.
       case r of
         Inl err \<Rightarrow> CheckErr (''get password from terminal failed: '' @ err)
       | Inr password \<Rightarrow> bind_io (emit [EvPrint [CHR 0x0A]]) (\<lambda>_. return_io password)))"

text \<open>
  \<^verbatim>\<open>assignRealPass(pass, host, objectType)\<close>: the new value of \<^verbatim>\<open>*pass\<close>. The arguments
  \<^verbatim>\<open>host\<close> and \<^verbatim>\<open>objectType\<close> only reach debug log lines, which are not modelled.
\<close>

definition assignRealPass :: "env \<Rightarrow> string \<Rightarrow> string io" where
  "assignRealPass e pass =
     (if IsAES256CipherText e pass then
        bind_io (GetVaultPassword e) (\<lambda>vaultPass.
          case AES256Decode e pass vaultPass of
            Inl err \<Rightarrow> CheckErr err
          | Inr plain \<Rightarrow> return_io plain)
      else return_io pass)"

definition getDefaultPassword :: "env \<Rightarrow> string io" where
  "getDefaultPassword e =
     (let authFile = Auth_PassFile (Config e) in
      bind_io
        (if authFile \<noteq> [] then
           bind_io (emit [EvReadFile authFile]) (\<lambda>_.
           case ReadFile e authFile of
             Inl err \<Rightarrow> CheckErr (''read password file '' @ quote authFile @ '' failed: '' @ err)
           | Inr passwordContent \<Rightarrow> return_io (TrimSpace passwordContent))
         else return_io [])
        (\<lambda>password0.
           let passwordFromFlag = Auth_Password (Config e);
               password1 = (if passwordFromFlag \<noteq> [] then passwordFromFlag else password0)
           in bind_io (assignRealPass e password1) (\<lambda>password2.
                if Auth_AskPass (Config e) then getPasswordFromPrompt (Auth_User (Config e))
                else return_io password2)))"

text \<open>\<^verbatim>\<open>strings.Replace(file, "~", homeDir, 1)\<close> on a path that starts with \<^verbatim>\<open>~/\<close>.\<close>

definition parseItentityFiles :: "env \<Rightarrow> string list \<Rightarrow> string list" where
  "parseItentityFiles e identityFiles =
     (let homeDir = Getenv e ''HOME'' in
      map (\<lambda>file. if prefix ''~/'' file then homeDir @ tl file else file) identityFiles)"

text \<open>\<^verbatim>\<open>getSigner\<close>: the signer, or \<^term>\<open>None\<close> for \<^verbatim>\<open>nil\<close>; its message is only logged.\<close>

definition getSigner :: "env \<Rightarrow> string \<Rightarrow> string \<Rightarrow> signer option" where
  "getSigner e keyfile passphrase =
     (case ReadFile e keyfile of
        Inl err \<Rightarrow> None
      | Inr buf \<Rightarrow>
          (case ParsePrivateKey e buf of
             Parsed pubkey \<Rightarrow> Some pubkey
           | PassphraseMissing err \<Rightarrow>
               (case ParseEncryptedPrivateKey e buf passphrase of
                  Inl err1 \<Rightarrow> None
                | Inr pubkeyWithPassphrase \<Rightarrow> Some pubkeyWithPassphrase)
           | ParseFailed err \<Rightarrow> None))"

definition getSigners :: "env \<Rightarrow> string list \<Rightarrow> string \<Rightarrow> signer list" where
  "getSigners e keyfiles passphrase =
     foldl (\<lambda>signers f. case getSigner e f passphrase of None \<Rightarrow> signers | Some signer \<Rightarrow> signers @ [signer])
       [] keyfiles"

text \<open>\<^verbatim>\<open>NewTask\<close>: the fields of the task that the functions below read.\<close>

definition NewTask :: "env \<Rightarrow> string \<Rightarrow> Task io" where
  "NewTask e now =
     (let ids = parseItentityFiles e (Auth_IdentityFiles (Config e)) in
      bind_io (getDefaultPassword e) (\<lambda>pass.
        return_io \<lparr> t_id = now, sshAgent = None, defaultUser = Auth_User (Config e),
          defaultPass = pass, defaultIdentityFiles = ids, defaultSSHAuthMethods = [],
          argHosts = [], t_err = None \<rparr>))"

definition setDefaultSSHAuthMethods :: "env \<Rightarrow> Task \<Rightarrow> Task io" where
  "setDefaultSSHAuthMethods e t =
     (let sshAuthSock = Getenv e ''SSH_AUTH_SOCK'';
          conn = (if sshAuthSock \<noteq> [] then agent_Dial e sshAuthSock else None);
          signers0 =
            (case conn of
               None \<Rightarrow> []
             | Some c \<Rightarrow> (case agent_Signers e of Inl err \<Rightarrow> [] | Inr ss \<Rightarrow> ss));
          t1 = (if sshAuthSock \<noteq> [] then t\<lparr>sshAgent := conn\<rparr> else t);
          signers1 =
            (if defaultIdentityFiles t \<noteq> [] then
               (let sshSigners = getSigners e (defaultIdentityFiles t) (Auth_Passphrase (Config e))
                in if sshSigners \<noteq> [] then signers0 @ sshSigners else signers0)
             else signers0);
          auths0 = (if signers1 \<noteq> [] then [AuthPublicKeys signers1] else []);
          auths1 = (if defaultPass t \<noteq> [] then auths0 @ [AuthPassword (defaultPass t)] else auths0)
      in if defaultPass t = [] \<and> Run_Sudo (Config e) then
           bind_io (getPasswordFromPrompt (defaultUser t)) (\<lambda>p.
             return_io (t1\<lparr>defaultPass := p, defaultSSHAuthMethods := auths1 @ [AuthPassword p]\<rparr>))
         else return_io (t1\<lparr>defaultSSHAuthMethods := auths1\<rparr>))"

subsection \<open>Removing duplicates\<close>

text \<open>
  The loops of \<^verbatim>\<open>deDuplicate\<close> and \<^verbatim>\<open>deDuplSSHHosts\<close>, as folds over the input. The state
  is the slice \<^verbatim>\<open>set\<close> and the map \<^verbatim>\<open>keys\<close>, whose lookup of an absent key gives \<^verbatim>\<open>false\<close>.
\<close>

definition deDuplicate_step ::
  "string list \<times> (string \<Rightarrow> bool) \<Rightarrow> string \<Rightarrow> string list \<times> (string \<Rightarrow> bool)" where
  "deDuplicate_step st v =
     (case st of (set_acc, keys) \<Rightarrow>
        if \<not> keys v then (set_acc @ [v], keys(v := True)) else (set_acc, keys))"

definition deDuplicate :: "string list \<Rightarrow> string list" where
  "deDuplicate hosts = fst (foldl deDuplicate_step ([], \<lambda>_. False) hosts)"

definition deDuplSSHHosts_step ::
  "ssh_host list \<times> (string \<Rightarrow> bool) \<Rightarrow> ssh_host \<Rightarrow> ssh_host list \<times> (string \<Rightarrow> bool)" where
  "deDuplSSHHosts_step st v =
     (case st of (set_acc, keys) \<Rightarrow>
        if \<not> keys (Alias v) then (set_acc @ [v], keys(Alias v := True)) else (set_acc, keys))"

definition deDuplSSHHosts :: "ssh_host list \<Rightarrow> ssh_host list" where
  "deDuplSSHHosts hosts = fst (foldl deDuplSSHHosts_step ([], \<lambda>_. False) hosts)"

text \<open>The positions of a list that hold the first occurrence of their element.\<close>

definition first_positions :: "'a list \<Rightarrow> nat list" where
  "first_positions ks = filter (\<lambda>i. ks ! i \<notin> set (take i ks)) [0..<length ks]"

subsection \<open>Resolving the target hosts\<close>

fun getInventoryHosts_group :: "env \<Rightarrow> string list \<Rightarrow> inv_host list \<Rightarrow> inv_host list" where
  "getInventoryHosts_group e [] fileHosts = fileHosts"
| "getInventoryHosts_group e (host # hostList) fileHosts =
     (let fileHosts' =
        (case inventory_GetHostsByGroup e host of
           Some hs \<Rightarrow> hs
         | None \<Rightarrow>
             (case inventory_GetHostByAlias e host of
                Some h \<Rightarrow> [h]
              | None \<Rightarrow> [\<lparr> inv_Alias = host, inv_Host = host, inv_Port = 0, inv_User = [],
                           inv_Password = [], inv_Keys = [], inv_Passphrase = [] \<rparr>]))
      in getInventoryHosts_group e hostList (fileHosts @ fileHosts'))"

fun getInventoryHosts_args :: "env \<Rightarrow> string list \<Rightarrow> inv_host list \<Rightarrow> string + inv_host list" where
  "getInventoryHosts_args e [] fileHosts = Inr fileHosts"
| "getInventoryHosts_args e (v # rest) fileHosts =
     (case PatternToHosts e v of
        Inl err \<Rightarrow> Inl (''invalid host pattern: '' @ err)
      | Inr hostList \<Rightarrow> getInventoryHosts_args e rest (getInventoryHosts_group e hostList fileHosts))"

definition getInventoryHosts :: "env \<Rightarrow> Task \<Rightarrow> string + inv_host list" where
  "getInventoryHosts e t =
     (case inventory_Parse e (Hosts_Inventory (Config e)) of
        Some err \<Rightarrow> Inl err
      | None \<Rightarrow>
          if argHosts t = [] then Inr (inventory_GetAllHosts e)
          else getInventoryHosts_args e (argHosts t) [])"

definition helpErr :: string where
  "helpErr = ''need target hosts, you can specify hosts file by flag '' @ quote ''-i'' @
     '', provide host/pattern/group as positional arguments''"

text \<open>The loop of \<^verbatim>\<open>getAllHosts\<close> over the positional arguments, when no inventory is set.\<close>

fun getAllHosts_args :: "env \<Rightarrow> Task \<Rightarrow> string list \<Rightarrow> ssh_host list \<Rightarrow> string + ssh_host list" where
  "getAllHosts_args e t [] hosts = Inr hosts"
| "getAllHosts_args e t (hostOrPattern # rest) hosts =
     (let hostOrPattern' = TrimSpace hostOrPattern in
      if hostOrPattern' = [] then getAllHosts_args e t rest hosts
      else
        (case PatternToHosts e hostOrPattern' of
           Inl err \<Rightarrow> Inl (''invalid host pattern: '' @ err)
         | Inr hostList \<Rightarrow>
             getAllHosts_args e t rest
               (hosts @ map (\<lambda>v. \<lparr> Alias = v, Host = v, Port = Hosts_Port (Config e),
                   User = defaultUser t, Password = defaultPass t,
                   Keys = defaultIdentityFiles t, SSHAuths = defaultSSHAuthMethods t \<rparr>) hostList)))"

text \<open>One turn of the loop of \<^verbatim>\<open>getAllHosts\<close> over the hosts of the inventory.\<close>

definition getAllHosts_host :: "env \<Rightarrow> Task \<Rightarrow> inv_host \<Rightarrow> ssh_host io" where
  "getAllHosts_host e t v =
     (let port = (if inv_Port v = 0 then Hosts_Port (Config e) else inv_Port v);
          user = (if inv_User v = [] then defaultUser t else inv_User v)
      in
      bind_io
        (if inv_Keys v \<noteq> [] then
           (let keys = parseItentityFiles e (inv_Keys v) in
            bind_io (assignRealPass e (inv_Passphrase v)) (\<lambda>passphrase.
              let sshSigners = getSigners e keys passphrase in
              return_io (if sshSigners = [] then [] else [AuthPublicKeys sshSigners])))
         else return_io [])
        (\<lambda>hostSSHAuths0.
      bind_io
        (if inv_Password v = [] then
           bind_io (assignRealPass e (defaultPass t)) (\<lambda>password.
             return_io (password, hostSSHAuths0))
         else
           bind_io (assignRealPass e (inv_Password v)) (\<lambda>password.
             return_io (password, hostSSHAuths0 @ [AuthPassword password])))
        (\<lambda>(password, hostSSHAuths1).
           return_io \<lparr> Alias = inv_Alias v, Host = inv_Host v, Port = port, User = user,
             Password = password, Keys = inv_Keys v,
             SSHAuths = hostSSHAuths1 @ defaultSSHAuthMethods t \<rparr>)))"

fun getAllHosts_inventory :: "env \<Rightarrow> Task \<Rightarrow> inv_host list \<Rightarrow> ssh_host list \<Rightarrow> ssh_host list io" where
  "getAllHosts_inventory e t [] hosts = return_io hosts"
| "getAllHosts_inventory e t (v # rest) hosts =
     bind_io (getAllHosts_host e t v) (\<lambda>h. getAllHosts_inventory e t rest (hosts @ [h]))"

text \<open>\<^verbatim>\<open>getAllHosts\<close>: the hosts, or the error it returns (\<^term>\<open>Inl\<close>), unless the process ends.\<close>

definition getAllHosts :: "env \<Rightarrow> Task \<Rightarrow> (string + ssh_host list) io" where
  "getAllHosts e t =
     (if Hosts_Inventory (Config e) = [] then
        (if argHosts t \<noteq> [] then
           return_io (case getAllHosts_args e t (argHosts t) [] of
                        Inl err \<Rightarrow> Inl err
                      | Inr hosts \<Rightarrow> Inr (deDuplSSHHosts hosts))
         else return_io (Inl helpErr))
      else
        (case getInventoryHosts e t of
           Inl err \<Rightarrow> return_io (Inl err)
         | Inr targetHosts \<Rightarrow>
             if targetHosts = [] then return_io (Inl helpErr)
             else bind_io (getAllHosts_inventory e t (inventory_DeDuplHosts e targetHosts) [])
                    (\<lambda>hosts. return_io (Inr hosts))))"

subsection \<open>Running the batch and collecting its results\<close>

record detailResult =
  detail_taskID :: string
  detail_hostname :: string
  detail_status :: string
  detail_output :: string

record taskResult =
  task_taskID :: string
  hostsSuccessCount :: int
  hostsFailureCount :: int
  elapsed :: real

text \<open>What \<^verbatim>\<open>BatchRun\<close> has sent on its two channels, in the order of the sends.\<close>

record sent =
  detailOutput :: "detailResult list"
  taskOutput :: "taskResult list"

text \<open>
  The body of \<^verbatim>\<open>for v := range result\<close>: count the result by its status, send it on.
  The counters are Go \<^verbatim>\<open>int\<close>s that count received results, so they stay far below
  \<open>2\<^sup>6\<^sup>3\<close>.
\<close>

definition BatchRun_count ::
  "env \<Rightarrow> string \<Rightarrow> int \<times> int \<times> detailResult list \<Rightarrow> batch_result \<Rightarrow> int \<times> int \<times> detailResult list" where
  "BatchRun_count e taskID st v =
     (case st of (successCount, failedCount, out) \<Rightarrow>
        (let d = \<lparr> detail_taskID = taskID, detail_hostname = r_Host v,
                   detail_status = r_Status v, detail_output = r_Message v \<rparr>
         in if r_Status v = SuccessIdentifier e then (successCount + 1, failedCount, out @ [d])
            else (successCount, failedCount + 1, out @ [d])))"

definition BatchRun_collect :: "env \<Rightarrow> string \<Rightarrow> real \<Rightarrow> batch_result list \<Rightarrow> sent" where
  "BatchRun_collect e taskID seconds result =
     (case foldl (BatchRun_count e taskID) (0, 0, []) result of
        (successCount, failedCount, out) \<Rightarrow>
          \<lparr> detailOutput = out,
            taskOutput = [\<lparr> task_taskID = taskID, hostsSuccessCount = successCount,
                            hostsFailureCount = failedCount, elapsed = seconds \<rparr>] \<rparr>)"


section \<open>Printing the results (HandleOutput)\<close>

text \<open>
  The regular expressions of package \<^verbatim>\<open>regexp\<close>, as far as \<^verbatim>\<open>sudoPromptRegex\<close> uses them:
  single characters, \<^verbatim>\<open>.\<close> under the flag \<^verbatim>\<open>s\<close>, character classes of ranges, the greedy
  repetitions \<^verbatim>\<open>*\<close> and \<^verbatim>\<open>+\<close> of one of these, \<^verbatim>\<open>?\<close>, concatenation and alternation. The
  expressions are matched against bytes. That agrees with matching against UTF-8 runes
  here: every literal of the pattern is a whole rune, its class holds ASCII only, and what
  follows a \<^verbatim>\<open>.*\<close> starts with the ASCII character \<^verbatim>\<open>[\<close>, which never lies inside a rune.
\<close>

datatype atom = Byte char | AnyByte | Ranges "(char \<times> char) list"

datatype regex =
    Eps
  | One atom
  | Star atom
  | Plus atom
  | Opt regex
  | Seq regex regex
  | Alt regex regex

fun atom_matches :: "atom \<Rightarrow> char \<Rightarrow> bool" where
  "atom_matches (Byte c) x = (x = c)"
| "atom_matches AnyByte x = True"
| "atom_matches (Ranges rs) x =
     list_ex (\<lambda>(lo, hi). (of_char lo :: nat) \<le> of_char x \<and> (of_char x :: nat) \<le> of_char hi) rs"

text \<open>
  \<^verbatim>\<open>regexp\<close> matches leftmost-first: of the matches that begin earliest it takes the one a
  backtracking search finds first. \<^term>\<open>rests r s\<close> lists what is left of \<open>s\<close> after each way
  in which \<open>r\<close> matches a prefix of \<open>s\<close>, in the order of that search: the left alternative
  before the right one, one more repetition before one less, the optional part before its
  absence.
\<close>

fun star_rests :: "atom \<Rightarrow> string \<Rightarrow> string list" where
  "star_rests a [] = [[]]"
| "star_rests a (x # s) = (if atom_matches a x then star_rests a s @ [x # s] else [x # s])"

fun rests :: "regex \<Rightarrow> string \<Rightarrow> string list" where
  "rests Eps s = [s]"
| "rests (One a) s = (case s of [] \<Rightarrow> [] | x # s' \<Rightarrow> if atom_matches a x then [s'] else [])"
| "rests (Star a) s = star_rests a s"
| "rests (Plus a) s = (case s of [] \<Rightarrow> [] | x # s' \<Rightarrow> if atom_matches a x then star_rests a s' else [])"
| "rests (Opt r) s = rests r s @ [s]"
| "rests (Seq r1 r2) s = concat (map (rests r2) (rests r1 s))"
| "rests (Alt r1 r2) s = rests r1 s @ rests r2 s"

text \<open>The match that begins at the start of \<open>s\<close>, as the text after it.\<close>

definition match_here :: "regex \<Rightarrow> string \<Rightarrow> string option" where
  "match_here r s = (case rests r s of [] \<Rightarrow> None | t # ts \<Rightarrow> Some t)"

text \<open>The leftmost match in \<open>s\<close>: the text before it and the text after it.\<close>

fun find_match :: "regex \<Rightarrow> string \<Rightarrow> (string \<times> string) option" where
  "find_match r [] = (case match_here r [] of None \<Rightarrow> None | Some t \<Rightarrow> Some ([], t))"
| "find_match r (x # s) =
     (case match_here r (x # s) of
        Some t \<Rightarrow> Some ([], t)
      | None \<Rightarrow> (case find_match r s of None \<Rightarrow> None | Some (pre, t) \<Rightarrow> Some (x # pre, t)))"

text \<open>
  \<^verbatim>\<open>re.ReplaceAllString(src, "")\<close>: the text between the successive matches. After a match
  the search goes on behind it; after a match of the empty string, which the pattern at
  hand never has, one character is copied first.
\<close>

function ReplaceAllString_empty :: "regex \<Rightarrow> string \<Rightarrow> string" where
  "ReplaceAllString_empty r src =
     (case find_match r src of
        None \<Rightarrow> src
      | Some (pre, rest) \<Rightarrow>
          if length rest < length src then pre @ ReplaceAllString_empty r rest
          else (case src of [] \<Rightarrow> [] | x # s \<Rightarrow> x # ReplaceAllString_empty r s))"
  by pat_completeness auto
termination
  by (relation "measure (\<lambda>(r, src). length src)") auto

definition lits :: "string \<Rightarrow> regex" where
  "lits s = foldr (\<lambda>c r. Seq (One (Byte c)) r) s Eps"

text \<open>\<^verbatim>\<open>linuxUserRegex = "[a-zA-Z0-9_.-]+[$]?"\<close>.\<close>

definition linuxUserClass :: atom where
  "linuxUserClass = Ranges [(CHR ''a'', CHR ''z''), (CHR ''A'', CHR ''Z''), (CHR ''0'', CHR ''9''),
     (CHR ''_'', CHR ''_''), (CHR ''.'', CHR ''.''), (CHR ''-'', CHR ''-'')]"

definition linuxUserRegex :: regex where
  "linuxUserRegex = Seq (Plus linuxUserClass) (Opt (One (Byte (CHR ''$''))))"

text \<open>
  \<^verbatim>\<open>sudoPromptRegex\<close>, the pattern
  \<^verbatim>\<open>(?s).*\[sudo\] password for U:(\n|)|(?s).*\[sudo\] U <Chinese>(\n|)\<close> with \<^verbatim>\<open>U\<close> the user
  pattern. The Chinese text after \<^verbatim>\<open>U\<close> is a space and four runes, U+7684 U+5BC6 U+7801
  U+FF1A, twelve bytes in UTF-8.
\<close>

definition sudoPromptEnglish :: regex where
  "sudoPromptEnglish =
     Seq (lits ''[sudo] password for '')
       (Seq linuxUserRegex (Seq (One (Byte (CHR '':''))) (Alt (One (Byte (CHR 0x0A))) Eps)))"

definition sudoPromptChinese :: regex where
  "sudoPromptChinese =
     Seq (lits ''[sudo] '')
       (Seq linuxUserRegex
          (Seq (lits (CHR '' '' # [CHR 0xE7, CHR 0x9A, CHR 0x84, CHR 0xE5, CHR 0xAF, CHR 0x86,
                                   CHR 0xE7, CHR 0xA0, CHR 0x81, CHR 0xEF, CHR 0xBC, CHR 0x9A]))
               (Alt (One (Byte (CHR 0x0A))) Eps)))"

definition sudoPromptRegex :: regex where
  "sudoPromptRegex = Alt (Seq (Star AnyByte) sudoPromptEnglish) (Seq (Star AnyByte) sudoPromptChinese)"

text \<open>
  What \<^verbatim>\<open>HandleOutput\<close> logs as the output of one host result: line ends normalised, the
  matches of the prompt pattern removed, white space trimmed. The pattern is a constant that
  compiles, so the branch for a failed \<^verbatim>\<open>regexp.Compile\<close> is never taken.
\<close>

definition HandleOutput_text :: "string \<Rightarrow> string" where
  "HandleOutput_text res_output =
     (let outputNoR = ReplaceAll_CRLF res_output;
          outputNoSudoPrompt = ReplaceAllString_empty sudoPromptRegex outputNoR
      in TrimSpace outputNoSudoPrompt)"

section \<open>The goroutines of Start\<close>

text \<open>
  \<^verbatim>\<open>Start\<close> runs three goroutines over the two channels of the task: the one that runs
  \<^verbatim>\<open>BatchRun\<close> and then the two deferred \<^verbatim>\<open>close\<close> calls, the timer (only with a positive
  task timeout), and the caller, which runs \<^verbatim>\<open>HandleOutput\<close>. \<^verbatim>\<open>detailOutput\<close> is unbuffered,
  \<^verbatim>\<open>taskOutput\<close> has room for one value. A channel operation follows the Go language:
  a send on a closed channel panics, closing a closed channel panics, a receive from a
  closed and empty channel ends the \<^verbatim>\<open>range\<close> loop. An unrecovered panic ends the program.
\<close>

datatype batch_pc =
    Forwarding "batch_result list" int int
  | DeferCloseDetail
  | DeferCloseTask
  | BatchReturned

datatype timer_pc = NoTimer | Sleeping | CloseDetail | CloseTask | TimerReturned

datatype main_pc = RangeDetail | RangeTask | StartReturned

text \<open>What is logged: a host result with its status and output, the summary, and the warning
  of the timer with the task and the timeout.\<close>

datatype log_line =
    LogHost string string string
  | LogSummary int int real
  | LogTaskTimeout string int

record sys =
  detail_closed :: bool
  task_closed :: bool
  task_buffer :: "taskResult list"
  batch_at :: batch_pc
  timer_at :: timer_pc
  main_at :: main_pc
  logged :: "log_line list"
  panicked :: "string option"

datatype goroutine = Batch | Timer | Main

text \<open>
  One step of the goroutine that runs \<^verbatim>\<open>BatchRun\<close>. \<^term>\<open>Forwarding rs s f\<close> is the loop
  over the result channel with \<open>rs\<close> still to come and the two counters; the send of a host
  result is taken by \<^verbatim>\<open>HandleOutput\<close>, which logs it. With nothing to come the summary
  is sent, then the deferred calls close \<^verbatim>\<open>detailOutput\<close> and \<^verbatim>\<open>taskOutput\<close>, in this order.
\<close>

definition batch_step :: "string \<Rightarrow> string \<Rightarrow> real \<Rightarrow> sys \<Rightarrow> sys" where
  "batch_step successId taskID seconds s =
     (case batch_at s of
        Forwarding (v # rs) successCount failedCount \<Rightarrow>
          if detail_closed s then s\<lparr>panicked := Some ''send on closed channel''\<rparr>
          else if main_at s = RangeDetail then
            s\<lparr>batch_at :=
                 (if r_Status v = successId then Forwarding rs (successCount + 1) failedCount
                  else Forwarding rs successCount (failedCount + 1)),
              logged := logged s @ [LogHost (r_Host v) (r_Status v) (HandleOutput_text (r_Message v))]\<rparr>
          else s
      | Forwarding [] successCount failedCount \<Rightarrow>
          if task_closed s then s\<lparr>panicked := Some ''send on closed channel''\<rparr>
          else if length (task_buffer s) < 1 then
            s\<lparr>task_buffer := task_buffer s @
                 [\<lparr> task_taskID = taskID, hostsSuccessCount = successCount,
                    hostsFailureCount = failedCount, elapsed = seconds \<rparr>],
              batch_at := DeferCloseDetail\<rparr>
          else s
      | DeferCloseDetail \<Rightarrow>
          if detail_closed s then s\<lparr>panicked := Some ''close of closed channel''\<rparr>
          else s\<lparr>detail_closed := True, batch_at := DeferCloseTask\<rparr>
      | DeferCloseTask \<Rightarrow>
          if task_closed s then s\<lparr>panicked := Some ''close of closed channel''\<rparr>
          else s\<lparr>task_closed := True, batch_at := BatchReturned\<rparr>
      | BatchReturned \<Rightarrow> s)"

text \<open>One step of the timer: the sleep ends and the warning is logged, then the two channels
  are closed, \<^verbatim>\<open>detailOutput\<close> first.\<close>

definition timer_step :: "string \<Rightarrow> int \<Rightarrow> sys \<Rightarrow> sys" where
  "timer_step taskID taskTimeout s =
     (case timer_at s of
        NoTimer \<Rightarrow> s
      | Sleeping \<Rightarrow> s\<lparr>timer_at := CloseDetail, logged := logged s @ [LogTaskTimeout taskID taskTimeout]\<rparr>
      | CloseDetail \<Rightarrow>
          if detail_closed s then s\<lparr>panicked := Some ''close of closed channel''\<rparr>
          else s\<lparr>detail_closed := True, timer_at := CloseTask\<rparr>
      | CloseTask \<Rightarrow>
          if task_closed s then s\<lparr>panicked := Some ''close of closed channel''\<rparr>
          else s\<lparr>task_closed := True, timer_at := TimerReturned\<rparr>
      | TimerReturned \<Rightarrow> s)"

text \<open>One step of \<^verbatim>\<open>HandleOutput\<close> on its own: it leaves a \<^verbatim>\<open>range\<close> loop when the channel
  is closed and empty, and logs a summary that waits in \<^verbatim>\<open>taskOutput\<close>.\<close>

definition main_step :: "sys \<Rightarrow> sys" where
  "main_step s =
     (case main_at s of
        RangeDetail \<Rightarrow> if detail_closed s then s\<lparr>main_at := RangeTask\<rparr> else s
      | RangeTask \<Rightarrow>
          (case task_buffer s of
             res # rest \<Rightarrow>
               s\<lparr>task_buffer := rest,
                 logged := logged s @
                   [LogSummary (hostsSuccessCount res) (hostsFailureCount res) (elapsed res)]\<rparr>
           | [] \<Rightarrow> if task_closed s then s\<lparr>main_at := StartReturned\<rparr> else s)
      | StartReturned \<Rightarrow> s)"

text \<open>A step of the program: nothing runs after a panic, or after \<^verbatim>\<open>Start\<close> has returned and
  the command has ended the process.\<close>

definition step :: "string \<Rightarrow> string \<Rightarrow> real \<Rightarrow> int \<Rightarrow> sys \<Rightarrow> goroutine \<Rightarrow> sys" where
  "step successId taskID seconds taskTimeout s g =
     (if panicked s \<noteq> None \<or> main_at s = StartReturned then s
      else case g of
        Batch \<Rightarrow> batch_step successId taskID seconds s
      | Timer \<Rightarrow> timer_step taskID taskTimeout s
      | Main \<Rightarrow> main_step s)"

text \<open>\<^verbatim>\<open>Start\<close> with the results that the result channel will deliver, under a schedule.\<close>

definition Start_init :: "int \<Rightarrow> batch_result list \<Rightarrow> sys" where
  "Start_init taskTimeout result =
     \<lparr> detail_closed = False, task_closed = False, task_buffer = [],
       batch_at = Forwarding result 0 0,
       timer_at = (if taskTimeout > 0 then Sleeping else NoTimer),
       main_at = RangeDetail, logged = [], panicked = None \<rparr>"

definition Start :: "string \<Rightarrow> string \<Rightarrow> real \<Rightarrow> int \<Rightarrow> batch_result list \<Rightarrow> goroutine list \<Rightarrow> sys" where
  "Start successId taskID seconds taskTimeout result schedule =
     foldl (step successId taskID seconds taskTimeout) (Start_init taskTimeout result) schedule"

section \<open>Notions used to state the properties\<close>


text \<open>What one rejected empty answer to the vault prompt leaves in the trace.\<close>

definition retry_events :: "event list" where
  "retry_events = [EvPrompt ''Vault password: '', EvPrint [CHR 0x0A],
     EvPrint ''password can not be null, retry\<newline>'']"

text \<open>The signers that the agent named by \<^verbatim>\<open>SSH_AUTH_SOCK\<close> yields; none without a live agent.\<close>

definition agentSigners :: "env \<Rightarrow> signer list" where
  "agentSigners e =
     (if Getenv e ''SSH_AUTH_SOCK'' = [] then []
      else case agent_Dial e (Getenv e ''SSH_AUTH_SOCK'') of
             None \<Rightarrow> []
           | Some c \<Rightarrow> (case agent_Signers e of Inl err \<Rightarrow> [] | Inr ss \<Rightarrow> ss))"

definition is_password :: "auth_method \<Rightarrow> bool" where
  "is_password a = (case a of AuthPassword p \<Rightarrow> True | AuthPublicKeys ss \<Rightarrow> False)"

text \<open>The record that \<^verbatim>\<open>BatchRun\<close> sends on for a received result.\<close>

definition to_detail :: "string \<Rightarrow> batch_result \<Rightarrow> detailResult" where
  "to_detail taskID v = \<lparr> detail_taskID = taskID, detail_hostname = r_Host v,
     detail_status = r_Status v, detail_output = r_Message v \<rparr>"

text \<open>
  The two prompts of sudo that the pattern knows, for a user name \<open>n\<close> with the optional
  \<^verbatim>\<open>$\<close> in \<open>d\<close>: the English one, and the Chinese one with its twelve bytes of UTF-8.
\<close>

definition english_prompt :: "string \<Rightarrow> string \<Rightarrow> string" where
  "english_prompt n d = ''[sudo] password for '' @ n @ d @ '':''"

definition chinese_prompt :: "string \<Rightarrow> string \<Rightarrow> string" where
  "chinese_prompt n d = ''[sudo] '' @ n @ d @ CHR '' '' #
     [CHR 0xE7, CHR 0x9A, CHR 0x84, CHR 0xE5, CHR 0xAF, CHR 0x86,
      CHR 0xE7, CHR 0xA0, CHR 0x81, CHR 0xEF, CHR 0xBC, CHR 0x9A]"

text \<open>A text without the line break that it starts with, if it starts with one.\<close>

definition after_line_break :: "string \<Rightarrow> string" where
  "after_line_break b = (case b of [] \<Rightarrow> [] | x # b' \<Rightarrow> if x = CHR 0x0A then b' else b)"

text \<open>No part of the pattern \<open>r\<close> matches the character \<open>q\<close>, so no match of \<open>r\<close> holds it.\<close>

fun avoids :: "char \<Rightarrow> regex \<Rightarrow> bool" where
  "avoids q Eps = True"
| "avoids q (One a) = (\<not> atom_matches a q)"
| "avoids q (Star a) = (\<not> atom_matches a q)"
| "avoids q (Plus a) = (\<not> atom_matches a q)"
| "avoids q (Opt r) = avoids q r"
| "avoids q (Seq r1 r2) = (avoids q r1 \<and> avoids q r2)"
| "avoids q (Alt r1 r2) = (avoids q r1 \<and> avoids q r2)"

section \<open>An example environment\<close>

text \<open>
  A small concrete world for the worked examples: user \<open>alice\<close>, an executable vault script
  \<open>vault.sh\<close> (mode 0755) that prints the vault password, a script \<open>quiet.sh\<close> that prints
  only a line break, the plain files \<open>vault.txt\<close> and \<open>script.txt\<close> (mode 0644), a login
  password file, a file \<open>blank.txt\<close> that holds only a line break, two identity files, an
  agent with one key, and an inventory with two hosts.
  The cipher recognises the header \<open>GOSSH-AES256:\<close> and decrypts one text.
\<close>

definition ex_Config :: ConfigFlags where
  "ex_Config = \<lparr> Auth_User = ''alice'', Auth_Password = [], Auth_AskPass = False,
     Auth_PassFile = [], Auth_IdentityFiles = [], Auth_Passphrase = [], Auth_VaultPassFile = [],
     Hosts_Inventory = [], Hosts_Port = 22, Run_Sudo = False, Timeout_Task = 0 \<rparr>"

definition ex_web1 :: inv_host where
  "ex_web1 = \<lparr> inv_Alias = ''web1'', inv_Host = ''10.0.0.1'', inv_Port = 0, inv_User = [],
     inv_Password = ''plain'', inv_Keys = [], inv_Passphrase = [] \<rparr>"

definition ex_db1 :: inv_host where
  "ex_db1 = \<lparr> inv_Alias = ''db1'', inv_Host = ''10.0.0.2'', inv_Port = 2222, inv_User = ''dba'',
     inv_Password = ''GOSSH-AES256:good'', inv_Keys = [], inv_Passphrase = [] \<rparr>"

definition ex_env :: env where
  "ex_env = \<lparr>
     Config = ex_Config,
     os_Stat = (\<lambda>f. if f = ''vault.sh'' \<or> f = ''quiet.sh'' then Inr 0x1ED
                     else if f = ''vault.txt'' \<or> f = ''script.txt'' \<or> f = ''blank.txt'' then Inr 0x1A4
                     else Inl ''no such file or directory''),
     ReadFile = (\<lambda>f. if f = ''vault.txt'' then Inr ''s3cret\<newline>''
                      else if f = ''script.txt'' then Inr ''#!/bin/sh\<newline>echo s3cret\<newline>''
                      else if f = ''blank.txt'' then Inr ''\<newline>''
                      else if f = ''pass.txt'' then Inr '' filepw\<newline>''
                      else if f = ''id_rsa'' then Inr ''KEY1''
                      else if f = ''/home/alice/id_enc'' then Inr ''KEY2''
                      else Inl ''no such file or directory''),
     exec_Output = (\<lambda>bin. if bin = ''./vault.sh'' then Inr ''s3cret\<newline>''
                           else if bin = ''./quiet.sh'' then Inr ''\<newline>''
                           else Inl ''exec failed''),
     Getenv = (\<lambda>k. if k = ''HOME'' then ''/home/alice''
                    else if k = ''SSH_AUTH_SOCK'' then ''/tmp/agent.sock'' else []),
     IsAES256CipherText = prefix ''GOSSH-AES256:'',
     AES256Decode = (\<lambda>c k. if c = ''GOSSH-AES256:good'' \<and> k = ''s3cret'' then Inr ''hunter2''
                            else Inl ''decrypt failed''),
     ParsePrivateKey = (\<lambda>buf. if buf = ''KEY1'' then Parsed ''signer1''
                              else if buf = ''KEY2'' then PassphraseMissing ''passphrase missing''
                              else ParseFailed ''no key found''),
     ParseEncryptedPrivateKey = (\<lambda>buf pp. if buf = ''KEY2'' \<and> pp = ''keypass'' then Inr ''signer2''
                                          else Inl ''bad passphrase''),
     agent_Dial = (\<lambda>sock. if sock = ''/tmp/agent.sock'' then Some sock else None),
     agent_Signers = Inr [''agentkey''],
     PatternToHosts = (\<lambda>p. Inr [p]),
     inventory_Parse = (\<lambda>f. None),
     inventory_GetAllHosts = [ex_web1, ex_db1],
     inventory_GetHostsByGroup = (\<lambda>g. None),
     inventory_GetHostByAlias = (\<lambda>a. None),
     inventory_DeDuplHosts = (\<lambda>hs. hs),
     ssh_BatchRun = map (\<lambda>h. \<lparr> r_Host = Alias h, r_Status = ''success'', r_Message = ''ok'' \<rparr>),
     SuccessIdentifier = ''success'' \<rparr>"

definition ex_Task :: Task where
  "ex_Task = \<lparr> t_id = ''20240101120000'', sshAgent = None, defaultUser = ''alice'', defaultPass = [],
     defaultIdentityFiles = [], defaultSSHAuthMethods = [], argHosts = [], t_err = None \<rparr>"

definition ex_world :: "(string + string) list \<Rightarrow> world" where
  "ex_world answers = \<lparr> tty = answers, trace = [] \<rparr>"



text \<open>The example with an inventory of two hosts whose passwords are encrypted.\<close>

definition ex_env_two :: env where
  "ex_env_two = ex_env\<lparr>Config := ex_Config\<lparr>Hosts_Inventory := ''hosts.ini''\<rparr>,
     inventory_GetAllHosts := [ex_db1, ex_db1\<lparr>inv_Alias := ''db2'', inv_Host := ''10.0.0.3''\<rparr>]\<rparr>"

text \<open>The example with a passphrase and three default identity files, one of them missing.\<close>

definition ex_env_keys :: env where
  "ex_env_keys = ex_env\<lparr>Config := ex_Config\<lparr>Auth_Passphrase := ''keypass''\<rparr>\<rparr>"

definition ex_Task_keys :: Task where
  "ex_Task_keys = ex_Task\<lparr>defaultPass := ''pw'',
     defaultIdentityFiles := [''id_rsa'', ''missing'', ''/home/alice/id_enc'']\<rparr>"

text \<open>The example with sudo requested and one inventory host without a password.\<close>

definition ex_env_sudo :: env where
  "ex_env_sudo = ex_env\<lparr>Config := ex_Config\<lparr>Hosts_Inventory := ''hosts.ini'', Run_Sudo := True\<rparr>,
     inventory_GetAllHosts := [ex_web1\<lparr>inv_Password := []\<rparr>]\<rparr>"

text \<open>The results of two hosts, as the result channel delivers them.\<close>

definition ex_results :: "batch_result list" where
  "ex_results = [\<lparr> r_Host = ''web1'', r_Status = ''success'', r_Message = ''done'' \<rparr>,
                 \<lparr> r_Host = ''db1'', r_Status = ''success'', r_Message = ''done'' \<rparr>]"

section \<open>Proofs\<close>

subsection \<open>Removing duplicates keeps the first occurrences, in order\<close>

lemma first_positions_snoc:
  "first_positions (ks @ [k]) = first_positions ks @ (if k \<in> set ks then [] else [length ks])"
  unfolding first_positions_def
  by (auto simp: nth_append intro!: filter_cong)

lemma map_nth_first_positions_snoc:
  "map ((!) (xs @ [x])) (first_positions (map f xs)) = map ((!) xs) (first_positions (map f xs))"
  unfolding first_positions_def by (auto simp: nth_append)

lemma deDuplSSHHosts_foldl:
  "foldl deDuplSSHHosts_step ([], \<lambda>_. False) hosts =
     (map ((!) hosts) (first_positions (map Alias hosts)), \<lambda>k. k \<in> Alias ` set hosts)"
proof (induction hosts rule: rev_induct)
  case Nil
  show ?case by (simp add: first_positions_def)
next
  case (snoc v hosts)
  have "foldl deDuplSSHHosts_step ([], \<lambda>_. False) (hosts @ [v]) =
        deDuplSSHHosts_step (map ((!) hosts) (first_positions (map Alias hosts)),
          \<lambda>k. k \<in> Alias ` set hosts) v"
    by (simp only: foldl_append foldl.simps snoc.IH)
  also have "\<dots> = (map ((!) (hosts @ [v])) (first_positions (map Alias (hosts @ [v]))),
          \<lambda>k. k \<in> Alias ` set (hosts @ [v]))"
    by (auto simp: deDuplSSHHosts_step_def first_positions_snoc
          map_nth_first_positions_snoc nth_append fun_eq_iff)
  finally show ?case .
qed

lemma deDuplicate_foldl:
  "foldl deDuplicate_step ([], \<lambda>_. False) hosts =
     (map ((!) hosts) (first_positions hosts), \<lambda>k. k \<in> set hosts)"
proof (induction hosts rule: rev_induct)
  case Nil
  show ?case by (simp add: first_positions_def)
next
  case (snoc v hosts)
  have nth_eq: "map ((!) (hosts @ [v])) (first_positions hosts) = map ((!) hosts) (first_positions hosts)"
    using map_nth_first_positions_snoc [of hosts v "\<lambda>x. x"] by simp
  have "foldl deDuplicate_step ([], \<lambda>_. False) (hosts @ [v]) =
        deDuplicate_step (map ((!) hosts) (first_positions hosts), \<lambda>k. k \<in> set hosts) v"
    by (simp only: foldl_append foldl.simps snoc.IH)
  also have "\<dots> = (map ((!) (hosts @ [v])) (first_positions (hosts @ [v])),
          \<lambda>k. k \<in> set (hosts @ [v]))"
    using nth_eq by (auto simp: deDuplicate_step_def first_positions_snoc nth_append fun_eq_iff)
  finally show ?case .
qed

lemma deDuplSSHHosts_eq:
  "deDuplSSHHosts hosts = map ((!) hosts) (first_positions (map Alias hosts))"
  by (simp add: deDuplSSHHosts_def deDuplSSHHosts_foldl)

lemma set_deDuplSSHHosts: "set (deDuplSSHHosts hosts) \<subseteq> set hosts"
  by (auto simp: deDuplSSHHosts_eq first_positions_def)

lemma firsts_snoc:
  "map ((!) (xs @ [x])) (first_positions (map f (xs @ [x]))) =
   map ((!) xs) (first_positions (map f xs)) @ (if f x \<in> f ` set xs then [] else [x])"
  using map_nth_first_positions_snoc [of xs x f]
  by (simp add: first_positions_snoc nth_append)

lemma firsts_keys:
  "distinct (map f (map ((!) xs) (first_positions (map f xs)))) \<and>
   f ` set (map ((!) xs) (first_positions (map f xs))) = f ` set xs"
proof (induction xs rule: rev_induct)
  case Nil
  show ?case by (simp add: first_positions_def)
next
  case (snoc x xs)
  then show ?case
    unfolding firsts_snoc by (auto simp: image_iff)
qed

text \<open>
  Claim C9. \<^verbatim>\<open>deDuplSSHHosts\<close> returns the hosts at exactly those positions whose alias
  does not occur at an earlier position, in the order of the input; \<^verbatim>\<open>deDuplicate\<close> does
  the same for a list of host names. So the first occurrence of every alias is kept, every
  later one is dropped, and the survivors keep their first-seen order.
\<close>

theorem deDuplicate_first_seen:
  "deDuplSSHHosts hosts = map ((!) hosts) (first_positions (map Alias hosts)) \<and>
   distinct (map Alias (deDuplSSHHosts hosts)) \<and>
   Alias ` set (deDuplSSHHosts hosts) = Alias ` set hosts \<and>
   deDuplicate names = map ((!) names) (first_positions names) \<and>
   distinct (deDuplicate names) \<and>
   set (deDuplicate names) = set names"
proof -
  have h: "deDuplSSHHosts hosts = map ((!) hosts) (first_positions (map Alias hosts))"
    by (rule deDuplSSHHosts_eq)
  have n: "deDuplicate names = map ((!) names) (first_positions names)"
    by (simp add: deDuplicate_def deDuplicate_foldl)
  from firsts_keys [of Alias hosts] firsts_keys [of "\<lambda>x. x" names] h n show ?thesis
    by simp
qed

subsection \<open>File modes and the steps of a call\<close>




lemma bind_return [simp]: "bind_io (return_io x) f w = f x w"
  by (simp add: bind_io_def return_io_def)

lemma bind_io_assoc [simp]: "bind_io (bind_io m f) g = bind_io m (\<lambda>x. bind_io (f x) g)"
  by (auto simp: bind_io_def fun_eq_iff split: prod.splits outcome.splits)

declare return_io_def [simp] CheckErr_def [simp]

lemma bind_CheckErr [simp]: "bind_io (CheckErr m) f w = (Exited m, w)"
  by (simp add: bind_io_def CheckErr_def)

lemma bind_emit [simp]: "bind_io (emit evs) f w = f () (w\<lparr>trace := trace w @ evs\<rparr>)"
  by (simp add: bind_io_def emit_def)

lemma bind_ReadPassword_Cons [simp]:
  "tty w = r # rest \<Longrightarrow> bind_io ReadPassword f w = f r (w\<lparr>tty := rest\<rparr>)"
  by (simp add: bind_io_def ReadPassword_def)

lemma bind_ReadPassword_Nil [simp]:
  "tty w = [] \<Longrightarrow> bind_io ReadPassword f w = f (Inl ''EOF'') w"
  by (simp add: bind_io_def ReadPassword_def)

declare GetVaultPassword_loop.simps [simp del]

lemma GetVaultPassword_loop_retry:
  "tty w = replicate n (Inr []) @ Inr p # rest \<Longrightarrow> p \<noteq> [] \<Longrightarrow>
   GetVaultPassword_loop w =
     (Returned p, w\<lparr>tty := rest, trace := trace w @ concat (replicate n retry_events) @
        [EvPrompt ''Vault password: '', EvPrint [CHR 0x0A]]\<rparr>)"
proof (induction n arbitrary: w)
  case 0
  then show ?case
    by (subst GetVaultPassword_loop.simps) (simp add: vault_getPasswordFromPrompt_def return_io_def)
next
  case (Suc n)
  let ?w' = "w\<lparr>tty := replicate n (Inr []) @ Inr p # rest, trace := trace w @ retry_events\<rparr>"
  have "GetVaultPassword_loop w = GetVaultPassword_loop ?w'"
    using Suc.prems
    by (subst GetVaultPassword_loop.simps)
       (simp add: vault_getPasswordFromPrompt_def return_io_def emit_def retry_events_def)
  also have "\<dots> = (Returned p, ?w'\<lparr>tty := rest, trace := trace ?w' @ concat (replicate n retry_events) @
        [EvPrompt ''Vault password: '', EvPrint [CHR 0x0A]]\<rparr>)"
    using Suc.prems by (intro Suc.IH) simp_all
  finally show ?case by simp
qed



lemma GetVaultPassword_prompt:
  assumes "Auth_VaultPassFile (Config e) = []" "tty w = replicate n (Inr []) @ Inr p # rest" "p \<noteq> []"
  shows "GetVaultPassword e w =
     (Returned p, w\<lparr>tty := rest, trace := trace w @ concat (replicate n retry_events) @
        [EvPrompt ''Vault password: '', EvPrint [CHR 0x0A]]\<rparr>)"
  using assms
  by (simp add: GetVaultPassword_def getVaultPasswordFromFile_def GetVaultPassword_loop_retry)

subsection \<open>Where the vault password comes from\<close>

declare TrimLeftSpace.simps [simp del] TrimRightSpace.simps [simp del]

lemma GetVaultPassword_stat_error:
  assumes "Auth_VaultPassFile (Config e) = f" "f \<noteq> []" "os_Stat e f = Inl msg"
  shows "GetVaultPassword e w = (Exited msg, w\<lparr>trace := trace w @ [EvStat f]\<rparr>)"
  using assms
  by (simp add: GetVaultPassword_def getVaultPasswordFromFile_def isExectuable_def Let_def)


lemma TrimSpace_s3cret: "TrimSpace ''s3cret\<newline>'' = ''s3cret''"
  by (simp add: TrimSpace_def space_width_def space_width_end_def TrimLeftSpace.simps TrimRightSpace.simps)




subsection \<open>A failed decryption ends the process\<close>


lemma bind_io_Returned: "m w = (Returned x, w') \<Longrightarrow> bind_io m f w = f x w'"
  by (simp add: bind_io_def)










subsection \<open>Every decryption obtains the vault password again\<close>

lemma GetVaultPassword_loop_trace:
  "\<exists>evs. trace (snd (GetVaultPassword_loop w)) = trace w @ EvPrompt ''Vault password: '' # evs"
proof (induction w rule: GetVaultPassword_loop.induct)
  case (1 w)
  show ?case
  proof (cases "tty w")
    case Nil
    then show ?thesis
      by (subst GetVaultPassword_loop.simps) (simp add: vault_getPasswordFromPrompt_def)
  next
    case (Cons r rest)
    show ?thesis
    proof (cases r)
      case (Inl err)
      with Cons show ?thesis
        by (subst GetVaultPassword_loop.simps) (simp add: vault_getPasswordFromPrompt_def)
    next
      case (Inr password)
      show ?thesis
      proof (cases "password = []")
        case False
        with Cons Inr show ?thesis
          by (subst GetVaultPassword_loop.simps) (simp add: vault_getPasswordFromPrompt_def)
      next
        case True
        let ?w' = "w\<lparr>tty := rest, trace := trace w @ [EvPrompt ''Vault password: '', EvPrint [CHR 0x0A]]\<rparr>"
        have v: "vault_getPasswordFromPrompt ''Vault password: '' w = (Returned (Inr []), ?w')"
          using Cons Inr True by (simp add: vault_getPasswordFromPrompt_def)
        have step: "GetVaultPassword_loop w =
            GetVaultPassword_loop (snd (emit [EvPrint ''password can not be null, retry\<newline>''] ?w'))"
          by (subst GetVaultPassword_loop.simps) (simp add: v)
        from "1.IH" [OF v [symmetric] refl refl] 
        obtain evs where "trace (snd (GetVaultPassword_loop
              (snd (emit [EvPrint ''password can not be null, retry\<newline>''] ?w')))) =
            trace (snd (emit [EvPrint ''password can not be null, retry\<newline>''] ?w')) @
              EvPrompt ''Vault password: '' # evs"
          using True by auto
        then show ?thesis
          unfolding step by (simp add: emit_def)
      qed
    qed
  qed
qed

lemma getVaultPasswordFromFile_trace:
  assumes "Auth_VaultPassFile (Config e) \<noteq> []"
  shows "\<exists>evs. trace (snd (getVaultPasswordFromFile e w)) =
           trace w @ EvStat (Auth_VaultPassFile (Config e)) # evs"
  using assms
  by (auto simp: getVaultPasswordFromFile_def Let_def split: sum.splits)

lemma GetVaultPassword_trace:
  "\<exists>evs. trace (snd (GetVaultPassword e w)) =
     trace w @ (if Auth_VaultPassFile (Config e) = [] then EvPrompt ''Vault password: ''
                else EvStat (Auth_VaultPassFile (Config e))) # evs"
proof (cases "Auth_VaultPassFile (Config e) = []")
  case True
  then show ?thesis
    using GetVaultPassword_loop_trace [of w]
    by (simp add: GetVaultPassword_def getVaultPasswordFromFile_def)
next
  case False
  from getVaultPasswordFromFile_trace [OF False, of w] obtain evs where
    evs: "trace (snd (getVaultPasswordFromFile e w)) =
           trace w @ EvStat (Auth_VaultPassFile (Config e)) # evs" by blast
  obtain r w1 where r: "getVaultPasswordFromFile e w = (r, w1)" by (cases "getVaultPasswordFromFile e w")
  show ?thesis
  proof (cases r)
    case (Exited msg)
    with r evs False show ?thesis by (simp add: GetVaultPassword_def bind_io_def)
  next
    case (Returned password)
    show ?thesis
    proof (cases "password = []")
      case True
      from GetVaultPassword_loop_trace [of w1] obtain evs' where
        "trace (snd (GetVaultPassword_loop w1)) = trace w1 @ EvPrompt ''Vault password: '' # evs'" by blast
      with r evs False Returned True show ?thesis by (simp add: GetVaultPassword_def bind_io_def)
    next
      case nonempty: False
      with r evs False Returned show ?thesis by (simp add: GetVaultPassword_def bind_io_def)
    qed
  qed
qed

text \<open>
  Claim C3, as amended. Nothing caches the vault password: every \<^verbatim>\<open>assignRealPass\<close> on a
  ciphertext calls \<^verbatim>\<open>GetVaultPassword\<close> again, whatever happened before. With a vault
  password file configured the call starts by examining that file again, without one it
  starts by prompting on the terminal again.
\<close>

theorem vault_password_obtained_anew:
  assumes "IsAES256CipherText e pass"
  shows "\<exists>evs. trace (snd (assignRealPass e pass w)) =
     trace w @ (if Auth_VaultPassFile (Config e) = [] then EvPrompt ''Vault password: ''
                else EvStat (Auth_VaultPassFile (Config e))) # evs"
proof -
  have "snd (assignRealPass e pass w) = snd (GetVaultPassword e w)"
    using assms
    by (auto simp: assignRealPass_def bind_io_def split: prod.splits outcome.splits sum.splits)
  then show ?thesis
    using GetVaultPassword_trace [of e w] by simp
qed

theorem vault_password_obtained_anew_witness:
  "IsAES256CipherText ex_env ''GOSSH-AES256:good'' \<and>
   (\<exists>evs. trace (snd (assignRealPass ex_env ''GOSSH-AES256:good''
       \<lparr>tty = [Inr ''s3cret''], trace = [EvPrompt ''Vault password: '', EvPrint [CHR 0x0A]]\<rparr>)) =
     [EvPrompt ''Vault password: '', EvPrint [CHR 0x0A]] @ EvPrompt ''Vault password: '' # evs)"
proof -
  have c: "IsAES256CipherText ex_env ''GOSSH-AES256:good''"
    by (simp add: ex_env_def)
  show ?thesis
    using c vault_password_obtained_anew [OF c,
        of "\<lparr>tty = [Inr ''s3cret''], trace = [EvPrompt ''Vault password: '', EvPrint [CHR 0x0A]]\<rparr>"]
    by (simp add: ex_env_def ex_Config_def)
qed

text \<open>
  Claim C3 as stated fails: for two inventory hosts with encrypted passwords the vault
  password is asked for twice on the terminal, and with a vault password file the file is
  examined and read twice.
\<close>

theorem vault_password_twice_counterexample:
  "snd (getAllHosts ex_env_two ex_Task (ex_world [Inr ''s3cret'', Inr ''s3cret''])) =
     \<lparr>tty = [],
       trace = [EvPrompt ''Vault password: '', EvPrint [CHR 0x0A],
                EvPrompt ''Vault password: '', EvPrint [CHR 0x0A]]\<rparr> \<and>
   snd (getAllHosts (ex_env_two\<lparr>Config := (Config ex_env_two)\<lparr>Auth_VaultPassFile := ''vault.txt''\<rparr>\<rparr>)
          ex_Task (ex_world [])) =
     \<lparr>tty = [],
       trace = [EvStat ''vault.txt'', EvReadFile ''vault.txt'',
                EvStat ''vault.txt'', EvReadFile ''vault.txt'']\<rparr>"
  by (simp add: bind_io_def emit_def ReadPassword_def getAllHosts_def
        getInventoryHosts_def getAllHosts_host_def assignRealPass_def GetVaultPassword_def
        getVaultPasswordFromFile_def GetVaultPassword_loop.simps vault_getPasswordFromPrompt_def
        isExectuable_def Perm_def TrimSpace_s3cret
        ex_env_two_def ex_env_def ex_Config_def ex_Task_def ex_world_def ex_db1_def Let_def)

subsection \<open>The default password\<close>

lemma assignRealPass_plain: "\<not> IsAES256CipherText e p \<Longrightarrow> assignRealPass e p w = (Returned p, w)"
  by (simp add: assignRealPass_def)

lemma assignRealPass_decrypts:
  "IsAES256CipherText e p \<Longrightarrow> GetVaultPassword e w = (Returned vp, w1) \<Longrightarrow>
   AES256Decode e p vp = Inr plain \<Longrightarrow> assignRealPass e p w = (Returned plain, w1)"
  by (simp add: assignRealPass_def bind_io_def)

lemma getPasswordFromPrompt_typed:
  "tty w = Inr typed # rest \<Longrightarrow>
   getPasswordFromPrompt user w =
     (Returned typed, w\<lparr>tty := rest, trace := trace w @
        [EvPrompt (''Password for '' @ user @ '': ''), EvPrint [CHR 0x0A]]\<rparr>)"
  by (simp add: getPasswordFromPrompt_def)

text \<open>
  Claim C10. Let \<open>fromFile\<close> be the trimmed contents of the password file (empty without
  one) and \<open>chosen\<close> the password of the flag or configuration when that is not empty,
  else \<open>fromFile\<close>. Without ask-pass the default password is what \<^verbatim>\<open>assignRealPass\<close> makes
  of \<open>chosen\<close>: \<open>chosen\<close> itself when it is no vault ciphertext, its decryption under the
  vault password when it is one. With ask-pass, once those steps have returned, the answer
  typed at the prompt is the default password as it was typed, whether or not it looks like
  a vault ciphertext.
\<close>

theorem getDefaultPassword_precedence:
  assumes "Auth_PassFile (Config e) = [] \<and> fromFile = [] \<and> wa = w
      \<or> Auth_PassFile (Config e) \<noteq> [] \<and> ReadFile e (Auth_PassFile (Config e)) = Inr content \<and>
        fromFile = TrimSpace content \<and> wa = w\<lparr>trace := trace w @ [EvReadFile (Auth_PassFile (Config e))]\<rparr>"
    and "chosen = (if Auth_Password (Config e) \<noteq> [] then Auth_Password (Config e) else fromFile)"
  shows
    "(\<not> Auth_AskPass (Config e) \<longrightarrow> getDefaultPassword e w = assignRealPass e chosen wa) \<and>
     (\<not> IsAES256CipherText e chosen \<longrightarrow> assignRealPass e chosen wa = (Returned chosen, wa)) \<and>
     (IsAES256CipherText e chosen \<and> GetVaultPassword e wa = (Returned vp, wb) \<and>
      AES256Decode e chosen vp = Inr plain \<longrightarrow> assignRealPass e chosen wa = (Returned plain, wb)) \<and>
     (Auth_AskPass (Config e) \<and> assignRealPass e chosen wa = (Returned decrypted, wc) \<and>
      tty wc = Inr typed # rest \<longrightarrow>
        getDefaultPassword e w =
          (Returned typed,
           wc\<lparr>tty := rest, trace := trace wc @
             [EvPrompt (''Password for '' @ Auth_User (Config e) @ '': ''), EvPrint [CHR 0x0A]]\<rparr>))"
proof -
  have stage: "getDefaultPassword e w =
      bind_io (assignRealPass e chosen) (\<lambda>password2.
        if Auth_AskPass (Config e) then getPasswordFromPrompt (Auth_User (Config e))
        else return_io password2) wa"
    using assms by (auto simp: getDefaultPassword_def Let_def)
  have a: "\<not> Auth_AskPass (Config e) \<longrightarrow> getDefaultPassword e w = assignRealPass e chosen wa"
    unfolding stage by (auto simp: bind_io_def split: prod.splits outcome.splits)
  have d: "Auth_AskPass (Config e) \<and> assignRealPass e chosen wa = (Returned decrypted, wc) \<and>
      tty wc = Inr typed # rest \<longrightarrow>
        getDefaultPassword e w =
          (Returned typed,
           wc\<lparr>tty := rest, trace := trace wc @
             [EvPrompt (''Password for '' @ Auth_User (Config e) @ '': ''), EvPrint [CHR 0x0A]]\<rparr>)"
    unfolding stage by (auto simp: bind_io_Returned getPasswordFromPrompt_typed)
  from a d show ?thesis
    using assignRealPass_plain [of e chosen wa] assignRealPass_decrypts [of e chosen wa vp wb plain] by blast
qed

lemma TrimSpace_filepw: "TrimSpace '' filepw\<newline>'' = ''filepw''"
  by (simp add: TrimSpace_def space_width_def space_width_end_def TrimLeftSpace.simps TrimRightSpace.simps)

theorem getDefaultPassword_precedence_witness:
  "getDefaultPassword (ex_env\<lparr>Config := ex_Config\<lparr>Auth_Password := ''flagpw'', Auth_PassFile := ''pass.txt''\<rparr>\<rparr>)
      (ex_world []) = (Returned ''flagpw'', \<lparr>tty = [], trace = [EvReadFile ''pass.txt'']\<rparr>) \<and>
   getDefaultPassword (ex_env\<lparr>Config := ex_Config\<lparr>Auth_PassFile := ''pass.txt''\<rparr>\<rparr>)
      (ex_world []) = (Returned ''filepw'', \<lparr>tty = [], trace = [EvReadFile ''pass.txt'']\<rparr>) \<and>
   getDefaultPassword (ex_env\<lparr>Config := ex_Config\<lparr>Auth_Password := ''GOSSH-AES256:good''\<rparr>\<rparr>)
      (ex_world [Inr ''s3cret'']) =
        (Returned ''hunter2'', \<lparr>tty = [], trace = [EvPrompt ''Vault password: '', EvPrint [CHR 0x0A]]\<rparr>) \<and>
   getDefaultPassword (ex_env\<lparr>Config := ex_Config\<lparr>Auth_Password := ''flagpw'', Auth_AskPass := True\<rparr>\<rparr>)
      (ex_world [Inr ''GOSSH-AES256:good'']) =
        (Returned ''GOSSH-AES256:good'',
         \<lparr>tty = [], trace = [EvPrompt ''Password for alice: '', EvPrint [CHR 0x0A]]\<rparr>) \<and>
   IsAES256CipherText ex_env ''GOSSH-AES256:good''"
proof -
  let ?e1 = "ex_env\<lparr>Config := ex_Config\<lparr>Auth_Password := ''flagpw'', Auth_PassFile := ''pass.txt''\<rparr>\<rparr>"
  let ?e2 = "ex_env\<lparr>Config := ex_Config\<lparr>Auth_PassFile := ''pass.txt''\<rparr>\<rparr>"
  let ?e3 = "ex_env\<lparr>Config := ex_Config\<lparr>Auth_Password := ''GOSSH-AES256:good''\<rparr>\<rparr>"
  let ?e4 = "ex_env\<lparr>Config := ex_Config\<lparr>Auth_Password := ''flagpw'', Auth_AskPass := True\<rparr>\<rparr>"
  let ?wf = "\<lparr>tty = [], trace = [EvReadFile ''pass.txt'']\<rparr>"
  let ?wv = "\<lparr>tty = [], trace = [EvPrompt ''Vault password: '', EvPrint [CHR 0x0A]]\<rparr>"
  have v: "GetVaultPassword ?e3 (ex_world [Inr ''s3cret'']) = (Returned ''s3cret'', ?wv)"
    using GetVaultPassword_prompt [of ?e3 "ex_world [Inr ''s3cret'']" 0 "''s3cret''" "[]"]
    by (simp add: ex_env_def ex_Config_def ex_world_def)
  have i1: "getDefaultPassword ?e1 (ex_world []) = (Returned ''flagpw'', ?wf)"
    using getDefaultPassword_precedence [where e = ?e1 and w = "ex_world []" and fromFile = "''filepw''"
        and wa = ?wf and content = "'' filepw\<newline>''" and chosen = "''flagpw''"]
    by (simp add: ex_env_def ex_Config_def ex_world_def TrimSpace_filepw)
  have i2: "getDefaultPassword ?e2 (ex_world []) = (Returned ''filepw'', ?wf)"
    using getDefaultPassword_precedence [where e = ?e2 and w = "ex_world []" and fromFile = "''filepw''"
        and wa = ?wf and content = "'' filepw\<newline>''" and chosen = "''filepw''"]
    by (simp add: ex_env_def ex_Config_def ex_world_def TrimSpace_filepw)
  have i3: "getDefaultPassword ?e3 (ex_world [Inr ''s3cret'']) = (Returned ''hunter2'', ?wv)"
    using v getDefaultPassword_precedence [where e = ?e3 and w = "ex_world [Inr ''s3cret'']" and fromFile = "[]"
        and wa = "ex_world [Inr ''s3cret'']" and chosen = "''GOSSH-AES256:good''" and vp = "''s3cret''"
        and wb = ?wv and plain = "''hunter2''"]
    by (simp add: ex_env_def ex_Config_def ex_world_def)
  have i4: "getDefaultPassword ?e4 (ex_world [Inr ''GOSSH-AES256:good'']) =
        (Returned ''GOSSH-AES256:good'',
         \<lparr>tty = [], trace = [EvPrompt ''Password for alice: '', EvPrint [CHR 0x0A]]\<rparr>)"
    using getDefaultPassword_precedence [where e = ?e4 and w = "ex_world [Inr ''GOSSH-AES256:good'']"
        and fromFile = "[]" and wa = "ex_world [Inr ''GOSSH-AES256:good'']" and chosen = "''flagpw''"
        and decrypted = "''flagpw''" and wc = "ex_world [Inr ''GOSSH-AES256:good'']"
        and typed = "''GOSSH-AES256:good''" and rest = "[]"]
    by (simp add: ex_env_def ex_Config_def ex_world_def)
  from i1 i2 i3 i4 show ?thesis by (simp add: ex_env_def)
qed

subsection \<open>The default authentication methods\<close>

lemma getSigners_map_filter:
  "getSigners e keyfiles passphrase = List.map_filter (\<lambda>f. getSigner e f passphrase) keyfiles"
  unfolding getSigners_def
  by (induction keyfiles rule: rev_induct) (auto simp: map_filter_def split: option.splits)

lemma setDefaultSSHAuthMethods_unfold:
  "setDefaultSSHAuthMethods e t =
     (let sock = Getenv e ''SSH_AUTH_SOCK'';
          signers = agentSigners e @ getSigners e (defaultIdentityFiles t) (Auth_Passphrase (Config e));
          t1 = (if sock \<noteq> [] then t\<lparr>sshAgent := agent_Dial e sock\<rparr> else t);
          auths = (if signers = [] then [] else [AuthPublicKeys signers]) @
                  (if defaultPass t \<noteq> [] then [AuthPassword (defaultPass t)] else [])
      in if defaultPass t = [] \<and> Run_Sudo (Config e) then
           bind_io (getPasswordFromPrompt (defaultUser t)) (\<lambda>p.
             return_io (t1\<lparr>defaultPass := p, defaultSSHAuthMethods := auths @ [AuthPassword p]\<rparr>))
         else return_io (t1\<lparr>defaultSSHAuthMethods := auths\<rparr>))"
proof -
  have g: "getSigners e [] (Auth_Passphrase (Config e)) = []"
    by (simp add: getSigners_def)
  show ?thesis
    unfolding setDefaultSSHAuthMethods_def agentSigners_def Let_def
    by (cases "Getenv e ''SSH_AUTH_SOCK'' = []"; cases "agent_Dial e (Getenv e ''SSH_AUTH_SOCK'')";
        cases "agent_Signers e"; cases "defaultIdentityFiles t = []";
        cases "getSigners e (defaultIdentityFiles t) (Auth_Passphrase (Config e)) = []")
       (simp_all add: g)
qed

lemma setDefaultSSHAuthMethods_result:
  assumes "setDefaultSSHAuthMethods e t w = (Returned t', w')"
  shows "defaultSSHAuthMethods t' =
     (let signers = agentSigners e @ getSigners e (defaultIdentityFiles t) (Auth_Passphrase (Config e))
      in (if signers = [] then [] else [AuthPublicKeys signers]) @
         (if defaultPass t \<noteq> [] then [AuthPassword (defaultPass t)]
          else if Run_Sudo (Config e) then [AuthPassword (defaultPass t')] else []))"
proof (cases "defaultPass t = [] \<and> Run_Sudo (Config e)")
  case False
  with assms show ?thesis
    unfolding setDefaultSSHAuthMethods_unfold Let_def by auto
next
  case True
  with assms obtain p where "t' = (if Getenv e ''SSH_AUTH_SOCK'' \<noteq> []
        then t\<lparr>sshAgent := agent_Dial e (Getenv e ''SSH_AUTH_SOCK'')\<rparr> else t)
      \<lparr>defaultPass := p, defaultSSHAuthMethods :=
         ((if agentSigners e @ getSigners e (defaultIdentityFiles t) (Auth_Passphrase (Config e)) = []
           then [] else [AuthPublicKeys (agentSigners e @
             getSigners e (defaultIdentityFiles t) (Auth_Passphrase (Config e)))]) @
          (if defaultPass t \<noteq> [] then [AuthPassword (defaultPass t)] else [])) @ [AuthPassword p]\<rparr>"
    unfolding setDefaultSSHAuthMethods_unfold Let_def
    by (auto simp: bind_io_def split: prod.splits outcome.splits)
  with True show ?thesis by (simp add: Let_def)
qed

text \<open>
  Claim C6. The default authentication methods are, in this order: one public-key method
  holding the signers of the agent followed by the signers read from the default identity
  files, in the order of the files (the method is left out when there is no signer at all);
  then a password method with the default password when that is not empty (or, when it is
  empty and sudo is requested, with the password asked for at the terminal).
\<close>

theorem default_auth_methods_order:
  assumes "setDefaultSSHAuthMethods e t w = (Returned t', w')"
    and "signers = agentSigners e @ List.map_filter (\<lambda>f. getSigner e f (Auth_Passphrase (Config e)))
                                      (defaultIdentityFiles t)"
  shows "defaultSSHAuthMethods t' =
     (if signers = [] then [] else [AuthPublicKeys signers]) @
     (if defaultPass t \<noteq> [] then [AuthPassword (defaultPass t)]
      else if Run_Sudo (Config e) then [AuthPassword (defaultPass t')] else [])"
  using setDefaultSSHAuthMethods_result [OF assms(1)] assms(2)
  by (simp add: getSigners_map_filter Let_def)

theorem default_auth_methods_order_witness:
  "setDefaultSSHAuthMethods ex_env_keys ex_Task_keys (ex_world []) =
     (Returned (ex_Task_keys\<lparr>sshAgent := Some ''/tmp/agent.sock'',
        defaultSSHAuthMethods :=
          [AuthPublicKeys [''agentkey'', ''signer1'', ''signer2''], AuthPassword ''pw'']\<rparr>),
      ex_world []) \<and>
   agentSigners ex_env_keys = [''agentkey''] \<and>
   List.map_filter (\<lambda>f. getSigner ex_env_keys f ''keypass'') (defaultIdentityFiles ex_Task_keys) =
     [''signer1'', ''signer2'']"
proof -
  have r: "setDefaultSSHAuthMethods ex_env_keys ex_Task_keys (ex_world []) =
     (Returned (ex_Task_keys\<lparr>sshAgent := Some ''/tmp/agent.sock'',
        defaultSSHAuthMethods :=
          [AuthPublicKeys [''agentkey'', ''signer1'', ''signer2''], AuthPassword ''pw'']\<rparr>),
      ex_world [])"
    by (simp add: setDefaultSSHAuthMethods_def getSigners_def getSigner_def Let_def
          ex_env_keys_def ex_Task_keys_def ex_env_def ex_Config_def ex_Task_def)
  have a: "agentSigners ex_env_keys = [''agentkey'']"
    by (simp add: agentSigners_def ex_env_keys_def ex_env_def)
  have f: "List.map_filter (\<lambda>f. getSigner ex_env_keys f ''keypass'')
             (defaultIdentityFiles ex_Task_keys) = [''signer1'', ''signer2'']"
    by (simp add: map_filter_def getSigner_def ex_env_keys_def ex_Task_keys_def ex_env_def ex_Task_def)
  from default_auth_methods_order [OF r refl] r a f show ?thesis
    by simp
qed

subsection \<open>The password asked for when sudo needs one\<close>

lemma setDefaultSSHAuthMethods_prompt:
  assumes "defaultPass t = []" "Run_Sudo (Config e)" "tty w = Inr typed # rest"
  shows "\<exists>t'. setDefaultSSHAuthMethods e t w =
      (Returned t', w\<lparr>tty := rest, trace := trace w @
         [EvPrompt (''Password for '' @ defaultUser t @ '': ''), EvPrint [CHR 0x0A]]\<rparr>) \<and>
     defaultPass t' = typed \<and> filter is_password (defaultSSHAuthMethods t') = [AuthPassword typed]"
  using assms
  unfolding setDefaultSSHAuthMethods_unfold Let_def
  by (simp add: getPasswordFromPrompt_typed bind_io_Returned is_password_def)

lemma getAllHosts_host_default_decrypted:
  assumes "inv_Password v = []" "inv_Keys v = []"
    and "IsAES256CipherText e (defaultPass t)"
    and "GetVaultPassword e wa = (Returned vaultPass, wb)"
    and "AES256Decode e (defaultPass t) vaultPass = Inr plain"
  shows "getAllHosts_host e t v wa =
     (Returned \<lparr> Alias = inv_Alias v, Host = inv_Host v,
         Port = (if inv_Port v = 0 then Hosts_Port (Config e) else inv_Port v),
         User = (if inv_User v = [] then defaultUser t else inv_User v),
         Password = plain, Keys = [], SSHAuths = defaultSSHAuthMethods t \<rparr>, wb)"
  using assms(1,2) assignRealPass_decrypts [OF assms(3,4,5)]
  unfolding getAllHosts_host_def Let_def
  by (simp add: bind_io_Returned)

text \<open>
  Claim C7 fails on the code for the hosts of an inventory. When sudo is requested and the
  default password is empty, \<^verbatim>\<open>setDefaultSSHAuthMethods\<close> prompts once on the terminal, and
  the answer becomes the default password and the only password method of the default
  authentication methods, as the claim has it. But for a host of the inventory without a
  password of its own \<^verbatim>\<open>getAllHosts\<close> passes the default password through
  \<^verbatim>\<open>assignRealPass\<close> once more: when the answer looks like a vault ciphertext, the password
  of the host, which is what is written to sudo prompts, is the decryption of the answer,
  while the password method of the host for the login holds the answer as typed.
\<close>

theorem sudo_password_decrypted_for_inventory_host:
  assumes "defaultPass t = []" "Run_Sudo (Config e)" "tty w = Inr typed # rest"
    and "wa = w\<lparr>tty := rest, trace := trace w @
           [EvPrompt (''Password for '' @ defaultUser t @ '': ''), EvPrint [CHR 0x0A]]\<rparr>"
    and "inv_Password v = []" "inv_Keys v = []"
    and "IsAES256CipherText e typed"
    and "GetVaultPassword e wa = (Returned vaultPass, wb)"
    and "AES256Decode e typed vaultPass = Inr plain"
  shows "\<exists>t' h. setDefaultSSHAuthMethods e t w = (Returned t', wa) \<and>
     defaultPass t' = typed \<and>
     filter is_password (defaultSSHAuthMethods t') = [AuthPassword typed] \<and>
     getAllHosts_host e t' v wa = (Returned h, wb) \<and>
     filter is_password (SSHAuths h) = [AuthPassword typed] \<and>
     Password h = plain"
proof -
  from setDefaultSSHAuthMethods_prompt [OF assms(1-3)] obtain t' where
    r: "setDefaultSSHAuthMethods e t w = (Returned t', wa)"
    and p: "defaultPass t' = typed"
    and f: "filter is_password (defaultSSHAuthMethods t') = [AuthPassword typed]"
    unfolding assms(4) by blast
  let ?h = "\<lparr> Alias = inv_Alias v, Host = inv_Host v,
         Port = (if inv_Port v = 0 then Hosts_Port (Config e) else inv_Port v),
         User = (if inv_User v = [] then defaultUser t' else inv_User v),
         Password = plain, Keys = [], SSHAuths = defaultSSHAuthMethods t' \<rparr>"
  have c: "IsAES256CipherText e (defaultPass t')" using assms(7) p by simp
  have d: "AES256Decode e (defaultPass t') vaultPass = Inr plain" using assms(9) p by simp
  have g: "getAllHosts_host e t' v wa = (Returned ?h, wb)"
    using assms(5,6) c assms(8) d by (rule getAllHosts_host_default_decrypted)
  have "filter is_password (SSHAuths ?h) = [AuthPassword typed]" using f by simp
  moreover have "Password ?h = plain" by simp
  ultimately show ?thesis using r p f g by blast
qed

theorem sudo_password_decrypted_for_inventory_host_witness:
  "\<exists>t' h. setDefaultSSHAuthMethods ex_env_sudo ex_Task (ex_world [Inr ''GOSSH-AES256:good'', Inr ''s3cret'']) =
       (Returned t', \<lparr>tty = [Inr ''s3cret''],
          trace = [EvPrompt ''Password for alice: '', EvPrint [CHR 0x0A]]\<rparr>) \<and>
     defaultPass t' = ''GOSSH-AES256:good'' \<and>
     filter is_password (defaultSSHAuthMethods t') = [AuthPassword ''GOSSH-AES256:good''] \<and>
     getAllHosts_host ex_env_sudo t' (ex_web1\<lparr>inv_Password := []\<rparr>)
         \<lparr>tty = [Inr ''s3cret''], trace = [EvPrompt ''Password for alice: '', EvPrint [CHR 0x0A]]\<rparr> =
       (Returned h, \<lparr>tty = [],
          trace = [EvPrompt ''Password for alice: '', EvPrint [CHR 0x0A],
                   EvPrompt ''Vault password: '', EvPrint [CHR 0x0A]]\<rparr>) \<and>
     filter is_password (SSHAuths h) = [AuthPassword ''GOSSH-AES256:good''] \<and>
     Password h = ''hunter2''"
proof -
  let ?w = "ex_world [Inr ''GOSSH-AES256:good'', Inr ''s3cret'']"
  let ?wa = "\<lparr>tty = [Inr ''s3cret''], trace = [EvPrompt ''Password for alice: '', EvPrint [CHR 0x0A]]\<rparr>"
  let ?wb = "\<lparr>tty = [], trace = [EvPrompt ''Password for alice: '', EvPrint [CHR 0x0A],
                   EvPrompt ''Vault password: '', EvPrint [CHR 0x0A]]\<rparr>"
  have a1: "defaultPass ex_Task = []" by (simp add: ex_Task_def)
  have a2: "Run_Sudo (Config ex_env_sudo)" by (simp add: ex_env_sudo_def ex_env_def)
  have a3: "tty ?w = Inr ''GOSSH-AES256:good'' # [Inr ''s3cret'']" by (simp add: ex_world_def)
  have a4: "?wa = ?w\<lparr>tty := [Inr ''s3cret''], trace := trace ?w @
           [EvPrompt (''Password for '' @ defaultUser ex_Task @ '': ''), EvPrint [CHR 0x0A]]\<rparr>"
    by (simp add: ex_world_def ex_Task_def)
  have a5: "inv_Password (ex_web1\<lparr>inv_Password := []\<rparr>) = []" by simp
  have a6: "inv_Keys (ex_web1\<lparr>inv_Password := []\<rparr>) = []" by (simp add: ex_web1_def)
  have a7: "IsAES256CipherText ex_env_sudo ''GOSSH-AES256:good''" by (simp add: ex_env_sudo_def ex_env_def)
  have a8: "GetVaultPassword ex_env_sudo ?wa = (Returned ''s3cret'', ?wb)"
    using GetVaultPassword_prompt [of ex_env_sudo ?wa 0 "''s3cret''" "[]"]
    by (simp add: ex_env_sudo_def ex_env_def ex_Config_def)
  have a9: "AES256Decode ex_env_sudo ''GOSSH-AES256:good'' ''s3cret'' = Inr ''hunter2''"
    by (simp add: ex_env_sudo_def ex_env_def)
  from sudo_password_decrypted_for_inventory_host [OF a1 a2 a3 a4 a5 a6 a7 a8 a9]
  show ?thesis .
qed

text \<open>
  The run on an inventory with the one host \<open>web1\<close>, which has no password of its own: the
  answer \<open>GOSSH-AES256:good\<close> to the password prompt is the password of the login method,
  and its decryption \<open>hunter2\<close> is the password of the host.
\<close>

theorem sudo_prompt_password_counterexample:
  "bind_io (setDefaultSSHAuthMethods ex_env_sudo ex_Task) (getAllHosts ex_env_sudo)
     (ex_world [Inr ''GOSSH-AES256:good'', Inr ''s3cret'']) =
     (Returned (Inr [\<lparr> Alias = ''web1'', Host = ''10.0.0.1'', Port = 22, User = ''alice'',
         Password = ''hunter2'', Keys = [],
         SSHAuths = [AuthPublicKeys [''agentkey''], AuthPassword ''GOSSH-AES256:good''] \<rparr>]),
      \<lparr>tty = [],
        trace = [EvPrompt ''Password for alice: '', EvPrint [CHR 0x0A],
                 EvPrompt ''Vault password: '', EvPrint [CHR 0x0A]]\<rparr>)"
  by (simp add: bind_io_def emit_def ReadPassword_def setDefaultSSHAuthMethods_def getAllHosts_def
        getPasswordFromPrompt_def
        getInventoryHosts_def getAllHosts_host_def assignRealPass_def GetVaultPassword_def
        getVaultPasswordFromFile_def GetVaultPassword_loop.simps vault_getPasswordFromPrompt_def
        ex_env_sudo_def ex_env_def ex_Config_def ex_Task_def ex_world_def ex_web1_def Let_def)

subsection \<open>Counting the results of a batch\<close>

lemma BatchRun_count_foldl:
  "foldl (BatchRun_count e taskID) (s, f, out) result =
     (s + int (length (filter (\<lambda>v. r_Status v = SuccessIdentifier e) result)),
      f + int (length (filter (\<lambda>v. r_Status v \<noteq> SuccessIdentifier e) result)),
      out @ map (to_detail taskID) result)"
  by (induction result arbitrary: s f out) (auto simp: BatchRun_count_def to_detail_def Let_def)

text \<open>
  Claim C5. For the results that the result channel delivers in a run that reaches its end
  (its sends meet open channels), \<^verbatim>\<open>BatchRun\<close> sends exactly one task summary; every
  received result is sent on exactly once, in the order received; a result counts as a
  success when its status is the success identifier and as a failure otherwise; and the
  two counts of the summary add up to the number of host results sent, which is the number
  received.
\<close>

theorem BatchRun_collect_counts:
  "taskOutput (BatchRun_collect e taskID seconds result) =
     [\<lparr> task_taskID = taskID,
        hostsSuccessCount = int (length (filter (\<lambda>v. r_Status v = SuccessIdentifier e) result)),
        hostsFailureCount = int (length (filter (\<lambda>v. r_Status v \<noteq> SuccessIdentifier e) result)),
        elapsed = seconds \<rparr>] \<and>
   detailOutput (BatchRun_collect e taskID seconds result) = map (to_detail taskID) result \<and>
   (let summary = hd (taskOutput (BatchRun_collect e taskID seconds result))
    in hostsSuccessCount summary + hostsFailureCount summary =
         int (length (detailOutput (BatchRun_collect e taskID seconds result))) \<and>
       hostsSuccessCount summary + hostsFailureCount summary = int (length result))"
proof -
  have "length (filter (\<lambda>v. r_Status v = SuccessIdentifier e) result) +
        length (filter (\<lambda>v. r_Status v \<noteq> SuccessIdentifier e) result) = length result"
    by (rule sum_length_filter_compl)
  then show ?thesis
    by (simp add: BatchRun_collect_def BatchRun_count_foldl Let_def flip: of_nat_add)
qed

subsection \<open>What removing the sudo prompt removes\<close>

lemma star_rests_AnyByte: "star_rests AnyByte s = suffixes s"
  by (induction s) simp_all

lemma star_rests_suffix: "t \<in> set (star_rests a s) \<Longrightarrow> suffix t s"
  by (induction s) (auto simp: suffix_Cons split: if_splits)

lemma rests_suffix: "t \<in> set (rests r s) \<Longrightarrow> suffix t s"
proof (induction r arbitrary: s t)
  case (One a)
  then show ?case by (auto simp: suffix_Cons split: list.splits if_splits)
next
  case (Star a)
  then show ?case by (simp add: star_rests_suffix)
next
  case (Plus a)
  then show ?case by (auto simp: suffix_Cons dest: star_rests_suffix split: list.splits if_splits)
next
  case (Seq r1 r2)
  from Seq.prems obtain x where "x \<in> set (rests r1 s)" "t \<in> set (rests r2 x)" by auto
  then have "suffix x s" "suffix t x" by (auto dest: Seq.IH)
  then show ?case by (rule suffix_order.trans [rotated])
qed auto

lemma rests_lits: "rests (lits l) s = (if prefix l s then [drop (length l) s] else [])"
  by (induction l arbitrary: s) (auto simp: lits_def prefix_Cons split: list.splits)

lemma rests_Seq_lits:
  "rests (Seq (lits l) r) s = (if prefix l s then rests r (drop (length l) s) else [])"
  by (simp add: rests_lits)

lemma rests_Seq_lits_shape:
  assumes "x \<in> set (rests (Seq (lits (c # l)) r) t)"
  shows "\<exists>t'. t = c # t' \<and> suffix x t'"
proof -
  from assms have p: "prefix (c # l) t" and x: "x \<in> set (rests r (drop (length (c # l)) t))"
    unfolding rests_Seq_lits by (auto split: if_splits)
  from p obtain t' where t: "t = c # t'" by (cases t) auto
  from rests_suffix [OF x] t have "suffix x (drop (length l) t')" by simp
  then have "suffix x t'" by (rule suffix_order.trans) (rule suffix_drop)
  with t show ?thesis by blast
qed

lemma rests_English_shape:
  "x \<in> set (rests sudoPromptEnglish t) \<Longrightarrow> \<exists>t'. t = CHR ''['' # t' \<and> suffix x t'"
  unfolding sudoPromptEnglish_def by (rule rests_Seq_lits_shape)

lemma rests_Chinese_shape:
  "x \<in> set (rests sudoPromptChinese t) \<Longrightarrow> \<exists>t'. t = CHR ''['' # t' \<and> suffix x t'"
  unfolding sudoPromptChinese_def by (rule rests_Seq_lits_shape)

lemma rests_Seq_assoc: "rests (Seq (Seq r1 r2) r3) s = rests (Seq r1 (Seq r2 r3)) s"
proof -
  have cm: "concat (map f (concat (map g xs))) = concat (map (\<lambda>x. concat (map f (g x))) xs)"
    for f :: "string \<Rightarrow> string list" and g :: "string \<Rightarrow> string list" and xs
    by (induction xs) auto
  have a: "rests (Seq (Seq r1 r2) r3) s =
      concat (map (rests r3) (concat (map (rests r2) (rests r1 s))))" by simp
  have c: "map (\<lambda>x. concat (map (rests r3) (rests r2 x))) ys = map (rests (Seq r2 r3)) ys" for ys
    by (induction ys) simp_all
  have d: "rests (Seq r1 (Seq r2 r3)) s = concat (map (rests (Seq r2 r3)) (rests r1 s))"
    by (simp only: rests.simps)
  show ?thesis unfolding a d cm c ..
qed

text \<open>The user pattern, followed by a pattern that no user character can start.\<close>

lemma star_rests_class_run:
  assumes "\<forall>c\<in>set n. atom_matches a c" "r0 = [] \<or> \<not> atom_matches a (hd r0)"
    and "\<And>c t. atom_matches a c \<Longrightarrow> rests k (c # t) = []"
  shows "concat (map (rests k) (star_rests a (n @ r0))) = rests k r0"
  using assms(1)
proof (induction n)
  case Nil
  from assms(2) have "star_rests a r0 = [r0]" by (cases r0) auto
  then show ?case by simp
next
  case (Cons c n)
  then show ?case by (simp add: assms(3))
qed

lemma class_chars:
  "atom_matches linuxUserClass c \<Longrightarrow> c \<noteq> CHR ''$'' \<and> c \<noteq> CHR '':'' \<and> c \<noteq> CHR ''[''"
  by (auto simp: linuxUserClass_def)

lemma rests_user_byte:
  assumes "n \<noteq> []" "\<forall>c\<in>set n. atom_matches linuxUserClass c" "d = [] \<or> d = ''$''"
    and q: "\<not> atom_matches linuxUserClass q" "q \<noteq> CHR ''$''"
  shows "rests (Seq linuxUserRegex (Seq (One (Byte q)) k)) (n @ d @ q # b) = rests k b"
proof -
  let ?K = "Seq (Opt (One (Byte (CHR ''$'')))) (Seq (One (Byte q)) k)"
  from assms(1) obtain c n' where n: "n = c # n'" by (cases n) auto
  have kill: "rests ?K (x # t) = []" if "atom_matches linuxUserClass x" for x t
  proof -
    from that class_chars have "x \<noteq> CHR ''$''" by blast
    moreover from that q(1) have "x \<noteq> q" by auto
    ultimately show ?thesis by simp
  qed
  have r0: "d @ q # b = [] \<or> \<not> atom_matches linuxUserClass (hd (d @ q # b))"
  proof -
    from assms(3) have "hd (d @ q # b) = q \<or> hd (d @ q # b) = CHR ''$''" by auto
    moreover have "\<not> atom_matches linuxUserClass (CHR ''$'')" by (simp add: linuxUserClass_def)
    ultimately show ?thesis using q(1) by metis
  qed
  have "rests (Seq linuxUserRegex (Seq (One (Byte q)) k)) (n @ d @ q # b) =
        concat (map (rests ?K) (star_rests linuxUserClass (n' @ d @ q # b)))"
    unfolding linuxUserRegex_def rests_Seq_assoc using assms(2) n by simp
  also have "\<dots> = rests ?K (d @ q # b)"
    using assms(2) n r0 kill by (intro star_rests_class_run) auto
  also have "\<dots> = rests k b"
    using assms(3) q(2) by auto
  finally show ?thesis .
qed

lemma rests_English_prompt:
  assumes "n \<noteq> []" "\<forall>c\<in>set n. atom_matches linuxUserClass c" "d = [] \<or> d = ''$''"
  shows "rests sudoPromptEnglish (english_prompt n d @ b) =
           (case b of [] \<Rightarrow> [b] | x # b' \<Rightarrow> if x = CHR 0x0A then [b', b] else [b])"
proof -
  have colon: "\<not> atom_matches linuxUserClass (CHR '':'')" "CHR '':'' \<noteq> CHR ''$''"
    by (simp_all add: linuxUserClass_def)
  have "rests sudoPromptEnglish (english_prompt n d @ b) =
      rests (Seq linuxUserRegex (Seq (One (Byte (CHR '':''))) (Alt (One (Byte (CHR 0x0A))) Eps)))
        (n @ d @ CHR '':'' # b)"
    unfolding sudoPromptEnglish_def rests_Seq_lits english_prompt_def by simp
  also have "\<dots> = rests (Alt (One (Byte (CHR 0x0A))) Eps) b"
    using assms colon by (rule rests_user_byte)
  finally show ?thesis by (simp split: list.splits)
qed

lemma rests_Star_Cons:
  "rests (Seq (Star AnyByte) r) (x # s) = rests (Seq (Star AnyByte) r) s @ rests r (x # s)"
  by simp

lemma in_rests_Star:
  "x \<in> set (rests (Seq (Star AnyByte) r) s) \<longleftrightarrow> (\<exists>t. suffix t s \<and> x \<in> set (rests r t))"
  by (auto simp: star_rests_AnyByte)

lemma english_prompt_Cons:
  "english_prompt n d = CHR ''['' # ''sudo] password for '' @ n @ d @ '':''"
  by (simp add: english_prompt_def)

lemma star_rests_avoids:
  "\<not> atom_matches a q \<Longrightarrow> x \<in> set (star_rests a t) \<Longrightarrow> \<exists>m. t = m @ x \<and> q \<notin> set m"
proof (induction t)
  case Nil
  then show ?case by simp
next
  case (Cons c t)
  show ?case
  proof (cases "x = c # t")
    case True
    then show ?thesis by simp
  next
    case False
    with Cons.prems have am: "atom_matches a c" and x: "x \<in> set (star_rests a t)"
      by (auto split: if_splits)
    from Cons.IH [OF Cons.prems(1) x] obtain m where m: "t = m @ x" "q \<notin> set m" by blast
    from am Cons.prems(1) have "c \<noteq> q" by auto
    with m have "c # t = (c # m) @ x \<and> q \<notin> set (c # m)" by simp
    then show ?thesis by blast
  qed
qed

lemma rests_avoids:
  "avoids q r \<Longrightarrow> x \<in> set (rests r t) \<Longrightarrow> \<exists>m. t = m @ x \<and> q \<notin> set m"
proof (induction r arbitrary: t x)
  case Eps
  then show ?case by simp
next
  case (One a)
  from One.prems obtain c where "t = c # x" "atom_matches a c"
    by (auto split: list.splits if_splits)
  with One.prems(1) have "t = [c] @ x \<and> q \<notin> set [c]" by auto
  then show ?case by blast
next
  case (Star a)
  then show ?case by (simp add: star_rests_avoids)
next
  case (Plus a)
  from Plus.prems obtain c t' where t: "t = c # t'" "atom_matches a c" "x \<in> set (star_rests a t')"
    by (auto split: list.splits if_splits)
  from Plus.prems(1) have na: "\<not> atom_matches a q" by simp
  from star_rests_avoids [OF na t(3)] obtain m where m: "t' = m @ x" "q \<notin> set m" by blast
  from t(2) na have "c \<noteq> q" by auto
  with m t(1) have "t = (c # m) @ x \<and> q \<notin> set (c # m)" by simp
  then show ?case by blast
next
  case (Opt r)
  show ?case
  proof (cases "x = t")
    case True
    then show ?thesis by simp
  next
    case False
    with Opt.prems have "x \<in> set (rests r t)" "avoids q r" by auto
    then show ?thesis using Opt.IH by blast
  qed
next
  case (Seq r1 r2)
  from Seq.prems obtain y where y: "y \<in> set (rests r1 t)" "x \<in> set (rests r2 y)" by auto
  from Seq.prems(1) have a: "avoids q r1" "avoids q r2" by simp_all
  from Seq.IH(1) [OF a(1) y(1)] obtain m1 where m1: "t = m1 @ y" "q \<notin> set m1" by blast
  from Seq.IH(2) [OF a(2) y(2)] obtain m2 where m2: "y = m2 @ x" "q \<notin> set m2" by blast
  from m1 m2 have "t = (m1 @ m2) @ x \<and> q \<notin> set (m1 @ m2)" by simp
  then show ?case by blast
next
  case (Alt r1 r2)
  from Alt.prems have "x \<in> set (rests r1 t) \<or> x \<in> set (rests r2 t)" by simp
  then show ?case
  proof
    assume "x \<in> set (rests r1 t)"
    with Alt.prems(1) Alt.IH(1) show ?thesis by simp
  next
    assume "x \<in> set (rests r2 t)"
    with Alt.prems(1) Alt.IH(2) show ?thesis by simp
  qed
qed

lemma avoids_lits: "q \<notin> set l \<Longrightarrow> avoids q (lits l)"
  by (induction l) (auto simp: lits_def)

lemma avoids_user: "avoids (CHR ''['') linuxUserRegex"
  by (simp add: linuxUserRegex_def linuxUserClass_def)

lemma English_match_shape:
  assumes "x \<in> set (rests sudoPromptEnglish t)"
  shows "\<exists>m. t = CHR ''['' # m @ x \<and> CHR ''['' \<notin> set m"
proof -
  let ?R = "Seq linuxUserRegex (Seq (One (Byte (CHR '':''))) (Alt (One (Byte (CHR 0x0A))) Eps))"
  from assms have p: "prefix ''[sudo] password for '' t"
    and x: "x \<in> set (rests ?R (drop (length ''[sudo] password for '') t))"
    unfolding sudoPromptEnglish_def rests_Seq_lits by (auto split: if_splits)
  have "avoids (CHR ''['') ?R" using avoids_user by simp
  from rests_avoids [OF this x] obtain m where
    m: "drop (length ''[sudo] password for '') t = m @ x" "CHR ''['' \<notin> set m" by blast
  from p have "t = ''[sudo] password for '' @ drop (length ''[sudo] password for '') t"
    by (metis append_eq_conv_conj prefixE)
  with m(1) have "t = CHR ''['' # (''sudo] password for '' @ m) @ x" by simp
  moreover from m(2) have "CHR ''['' \<notin> set (''sudo] password for '' @ m)" by simp
  ultimately show ?thesis by blast
qed

declare ReplaceAllString_empty.simps [simp del]

lemma rests_sudoPromptRegex:
  "rests sudoPromptRegex s =
     rests (Seq (Star AnyByte) sudoPromptEnglish) s @ rests (Seq (Star AnyByte) sudoPromptChinese) s"
  unfolding sudoPromptRegex_def by (rule rests.simps)

lemma rests_sudoPromptRegex_shorter:
  assumes "x \<in> set (rests sudoPromptRegex s)"
  shows "suffix x s \<and> length x < length s"
proof -
  from assms obtain t where t: "suffix t s"
    and x: "x \<in> set (rests sudoPromptEnglish t) \<or> x \<in> set (rests sudoPromptChinese t)"
    unfolding rests_sudoPromptRegex set_append Un_iff in_rests_Star by blast
  from x rests_English_shape rests_Chinese_shape obtain t' where t': "t = CHR ''['' # t'" "suffix x t'"
    by blast
  from t'(2) have "length x \<le> length t'" by (rule suffix_length_le)
  moreover from t have "length t \<le> length s" by (rule suffix_length_le)
  ultimately have l: "length x < length s" using t'(1) by simp
  from t' have "suffix x t" by (simp add: suffix_Cons)
  then have "suffix x s" using t by (rule suffix_order.trans)
  with l show ?thesis by (rule conjI [rotated])
qed

lemma rests_sudoPromptRegex_Cons:
  "rests sudoPromptRegex (c # s) = [] \<Longrightarrow> rests sudoPromptRegex s = []"
  unfolding rests_sudoPromptRegex rests_Star_Cons by simp

lemma find_match_None: "rests sudoPromptRegex s = [] \<Longrightarrow> find_match sudoPromptRegex s = None"
proof (induction s)
  case Nil
  then show ?case by (simp add: match_here_def)
next
  case (Cons c s)
  from Cons.prems have "rests sudoPromptRegex s = []" by (rule rests_sudoPromptRegex_Cons)
  then have "find_match sudoPromptRegex s = None" by (rule Cons.IH)
  with Cons.prems show ?case by (simp add: match_here_def)
qed

lemma find_match_Some:
  assumes "rests sudoPromptRegex s \<noteq> []"
  shows "find_match sudoPromptRegex s = Some ([], hd (rests sudoPromptRegex s))"
proof -
  from assms have "match_here sudoPromptRegex s = Some (hd (rests sudoPromptRegex s))"
    by (cases "rests sudoPromptRegex s") (simp_all add: match_here_def)
  then show ?thesis by (cases s) simp_all
qed

lemma strip_suffix: "suffix (ReplaceAllString_empty sudoPromptRegex s) s"
proof (induction s rule: length_induct)
  case (1 s)
  show ?case
  proof (cases "rests sudoPromptRegex s = []")
    case True
    then have "find_match sudoPromptRegex s = None" by (rule find_match_None)
    then have "ReplaceAllString_empty sudoPromptRegex s = s"
      by (subst ReplaceAllString_empty.simps) simp
    then show ?thesis by simp
  next
    case False
    let ?t = "hd (rests sudoPromptRegex s)"
    from False have f: "find_match sudoPromptRegex s = Some ([], ?t)" by (rule find_match_Some)
    from False have "?t \<in> set (rests sudoPromptRegex s)" by (rule hd_in_set)
    then have t: "suffix ?t s" "length ?t < length s"
      using rests_sudoPromptRegex_shorter by blast+
    from f t(2) have "ReplaceAllString_empty sudoPromptRegex s = ReplaceAllString_empty sudoPromptRegex ?t"
      by (subst ReplaceAllString_empty.simps) simp
    moreover from "1.IH" t(2) have "suffix (ReplaceAllString_empty sudoPromptRegex ?t) ?t" by blast
    ultimately show ?thesis using t(1) by (metis suffix_order.trans)
  qed
qed

lemma star_none_iff:
  "rests (Seq (Star AnyByte) r) s = [] \<longleftrightarrow> (\<forall>t. suffix t s \<longrightarrow> rests r t = [])"
proof
  assume e: "rests (Seq (Star AnyByte) r) s = []"
  show "\<forall>t. suffix t s \<longrightarrow> rests r t = []"
  proof (intro allI impI)
    fix t assume t: "suffix t s"
    show "rests r t = []"
    proof (cases "rests r t")
      case Nil
      then show ?thesis .
    next
      case (Cons x xs)
      then have "x \<in> set (rests r t)" by simp
      with t have "x \<in> set (rests (Seq (Star AnyByte) r) s)" unfolding in_rests_Star by blast
      with e show ?thesis by simp
    qed
  qed
next
  assume a: "\<forall>t. suffix t s \<longrightarrow> rests r t = []"
  show "rests (Seq (Star AnyByte) r) s = []"
  proof (cases "rests (Seq (Star AnyByte) r) s")
    case Nil
    then show ?thesis .
  next
    case (Cons x xs)
    then have "x \<in> set (rests (Seq (Star AnyByte) r) s)" by simp
    then obtain t where "suffix t s" "x \<in> set (rests r t)" unfolding in_rests_Star by blast
    with a show ?thesis by auto
  qed
qed

lemma star_none_suffix:
  assumes "rests (Seq (Star AnyByte) r) s = []" "suffix t s"
  shows "rests (Seq (Star AnyByte) r) t = []"
proof -
  have "rests r u = []" if "suffix u t" for u
  proof -
    from that assms(2) have "suffix u s" by (rule suffix_order.trans)
    with assms(1) show ?thesis unfolding star_none_iff by blast
  qed
  then show ?thesis unfolding star_none_iff by blast
qed

lemma star_only_here:
  "rests (Seq (Star AnyByte) r) s = [] \<Longrightarrow> rests (Seq (Star AnyByte) r) (c # s) = rests r (c # s)"
  unfolding rests_Star_Cons by simp

lemma hd_star_prepend:
  assumes "rests (Seq (Star AnyByte) r) s \<noteq> []"
  shows "rests (Seq (Star AnyByte) r) (a @ s) \<noteq> [] \<and>
         hd (rests (Seq (Star AnyByte) r) (a @ s)) = hd (rests (Seq (Star AnyByte) r) s)"
proof (induction a)
  case Nil
  from assms show ?case by simp
next
  case (Cons c a)
  let ?L = "rests (Seq (Star AnyByte) r) (a @ s)"
  from Cons.IH have ne: "?L \<noteq> []" and h: "hd ?L = hd (rests (Seq (Star AnyByte) r) s)" by blast+
  have eq: "rests (Seq (Star AnyByte) r) ((c # a) @ s) = ?L @ rests r (c # a @ s)"
    unfolding append_Cons by (rule rests_Star_Cons)
  from ne have "hd (?L @ rests r (c # a @ s)) = hd ?L" by (rule hd_append2)
  with ne h show ?case unfolding eq by simp
qed

lemma find_match_None_rests: "find_match r s = None \<Longrightarrow> rests r s = []"
  by (cases s; cases "rests r s") (auto simp: match_here_def split: option.splits)

lemma sudoPromptRegex_none:
  "rests sudoPromptRegex s = [] \<longleftrightarrow>
     rests (Seq (Star AnyByte) sudoPromptEnglish) s = [] \<and> rests (Seq (Star AnyByte) sudoPromptChinese) s = []"
  unfolding rests_sudoPromptRegex by simp

lemma sudoPromptRegex_none_suffix:
  "rests sudoPromptRegex s = [] \<Longrightarrow> suffix t s \<Longrightarrow> rests sudoPromptRegex t = []"
  unfolding sudoPromptRegex_none using star_none_suffix by blast

lemma strip_none: "rests sudoPromptRegex s = [] \<Longrightarrow> ReplaceAllString_empty sudoPromptRegex s = s"
  by (subst ReplaceAllString_empty.simps) (simp add: find_match_None)

lemma strip_step:
  assumes "rests sudoPromptRegex s \<noteq> []"
  shows "ReplaceAllString_empty sudoPromptRegex s =
           ReplaceAllString_empty sudoPromptRegex (hd (rests sudoPromptRegex s))"
proof -
  let ?t = "hd (rests sudoPromptRegex s)"
  from assms have f: "find_match sudoPromptRegex s = Some ([], ?t)" by (rule find_match_Some)
  from assms have "?t \<in> set (rests sudoPromptRegex s)" by (rule hd_in_set)
  then have "length ?t < length s" using rests_sudoPromptRegex_shorter by blast
  with f show ?thesis by (subst ReplaceAllString_empty.simps) simp
qed

lemma suffix_after_bracket:
  assumes "suffix t ((c # p) @ b)" "t = c # t'" "c \<notin> set p"
  shows "t = (c # p) @ b \<or> suffix t b"
proof -
  from assms(1) have "suffix t b \<or> (\<exists>t0. t = t0 @ b \<and> suffix t0 (c # p))"
    unfolding suffix_append .
  then show ?thesis
  proof
    assume "suffix t b" then show ?thesis ..
  next
    assume "\<exists>t0. t = t0 @ b \<and> suffix t0 (c # p)"
    then obtain t0 where t0: "t = t0 @ b" "suffix t0 (c # p)" by blast
    show ?thesis
    proof (cases "t0 = []")
      case True
      with t0 show ?thesis by simp
    next
      case False
      from t0(2) have "t0 = c # p \<or> suffix t0 p" unfolding suffix_Cons .
      then show ?thesis
      proof
        assume "t0 = c # p"
        with t0(1) show ?thesis by blast
      next
        assume "suffix t0 p"
        then have "set t0 \<subseteq> set p" by (rule set_mono_suffix)
        moreover from False t0(1) assms(2) have "c \<in> set t0" by (cases t0) auto
        ultimately show ?thesis using assms(3) by blast
      qed
    qed
  qed
qed

text \<open>A prompt followed by text that holds no match: the pattern with its leading
  \<^verbatim>\<open>.*\<close> matches at the prompt and nowhere behind its first character.\<close>

lemma star_at_prompt:
  assumes shape: "\<And>x t. x \<in> set (rests r t) \<Longrightarrow> \<exists>t'. t = CHR ''['' # t' \<and> suffix x t'"
    and "CHR ''['' \<notin> set p" "rests (Seq (Star AnyByte) r) b = []"
  shows "rests (Seq (Star AnyByte) r) ((CHR ''['' # p) @ b) = rests r ((CHR ''['' # p) @ b)"
proof -
  have "rests r t = []" if t: "suffix t (p @ b)" for t
  proof (rule ccontr)
    assume "rests r t \<noteq> []"
    then obtain x where "x \<in> set (rests r t)" by (cases "rests r t") auto
    from shape [OF this] obtain t' where t': "t = CHR ''['' # t'" by blast
    from t have "suffix t ((CHR ''['' # p) @ b)" by (simp add: suffix_Cons)
    from suffix_after_bracket [OF this t' assms(2)] have "t = (CHR ''['' # p) @ b \<or> suffix t b" .
    then show False
    proof
      assume "t = (CHR ''['' # p) @ b"
      with t have "length ((CHR ''['' # p) @ b) \<le> length (p @ b)" using suffix_length_le by blast
      then show False by simp
    next
      assume "suffix t b"
      with assms(3) have "rests r t = []" unfolding star_none_iff by blast
      with \<open>rests r t \<noteq> []\<close> show False by simp
    qed
  qed
  then have "rests (Seq (Star AnyByte) r) (p @ b) = []" unfolding star_none_iff by blast
  then show ?thesis unfolding append_Cons by (rule star_only_here)
qed

lemma hd_rests_English_prompt:
  assumes "n \<noteq> []" "\<forall>c\<in>set n. atom_matches linuxUserClass c" "d = [] \<or> d = ''$''"
  shows "rests sudoPromptEnglish (english_prompt n d @ b) \<noteq> [] \<and>
         hd (rests sudoPromptEnglish (english_prompt n d @ b)) = after_line_break b"
  unfolding rests_English_prompt [OF assms] after_line_break_def
  by (simp split: list.splits)

lemma bracket_not_in_english:
  assumes "\<forall>c\<in>set n. atom_matches linuxUserClass c" "d = [] \<or> d = ''$''"
  shows "CHR ''['' \<notin> set (''sudo] password for '' @ n @ d @ '':'')"
proof -
  have n1: "CHR ''['' \<notin> set n" using assms(1) class_chars by blast
  have n2: "CHR ''['' \<notin> set d" using assms(2) by auto
  from n1 n2 show ?thesis by simp
qed

lemma after_line_break_suffix: "suffix (after_line_break b) b"
  by (auto simp: after_line_break_def suffix_Cons split: list.splits)

lemma strip_English:
  assumes "n \<noteq> []" "\<forall>c\<in>set n. atom_matches linuxUserClass c" "d = [] \<or> d = ''$''"
    and b: "rests sudoPromptRegex b = []"
  shows "ReplaceAllString_empty sudoPromptRegex (a @ english_prompt n d @ b) = after_line_break b"
proof -
  let ?E = "Seq (Star AnyByte) sudoPromptEnglish"
  let ?P = "CHR ''['' # ''sudo] password for '' @ n @ d @ '':''"
  let ?s = "a @ english_prompt n d @ b"
  have P: "english_prompt n d = ?P" by (rule english_prompt_Cons)
  from b have bE: "rests ?E b = []" unfolding sudoPromptRegex_none by blast
  have "rests ?E (?P @ b) = rests sudoPromptEnglish (?P @ b)"
    using rests_English_shape bracket_not_in_english [OF assms(2,3)] bE by (rule star_at_prompt)
  then have here: "rests ?E (english_prompt n d @ b) = rests sudoPromptEnglish (english_prompt n d @ b)"
    unfolding P .
  from hd_rests_English_prompt [OF assms(1-3), of b]
  have ne: "rests ?E (english_prompt n d @ b) \<noteq> []"
    and h: "hd (rests ?E (english_prompt n d @ b)) = after_line_break b"
    unfolding here by blast+
  from hd_star_prepend [OF ne, of a] h have neE: "rests ?E ?s \<noteq> []" and hE: "hd (rests ?E ?s) = after_line_break b"
    by simp_all
  from neE have ne': "rests sudoPromptRegex ?s \<noteq> []" unfolding rests_sudoPromptRegex by simp
  from neE have "hd (rests sudoPromptRegex ?s) = hd (rests ?E ?s)"
    unfolding rests_sudoPromptRegex by (rule hd_append2)
  with hE have hd: "hd (rests sudoPromptRegex ?s) = after_line_break b" by simp
  have "rests sudoPromptRegex (after_line_break b) = []"
    using b after_line_break_suffix by (rule sudoPromptRegex_none_suffix)
  then have "ReplaceAllString_empty sudoPromptRegex (after_line_break b) = after_line_break b"
    by (rule strip_none)
  with strip_step [OF ne'] hd show ?thesis by simp
qed

lemma lits_Cons: "lits (c # l) = Seq (One (Byte c)) (lits l)"
  by (simp add: lits_def)

lemma rests_Seq_lits_Cons:
  "rests (Seq r (Seq (lits (c # l)) k)) s = rests (Seq r (Seq (One (Byte c)) (Seq (lits l) k))) s"
proof -
  have "rests (Seq (lits (c # l)) k) = rests (Seq (One (Byte c)) (Seq (lits l) k))"
    unfolding lits_Cons using rests_Seq_assoc by blast
  then show ?thesis by simp
qed

lemma rests_Chinese_prompt:
  assumes "n \<noteq> []" "\<forall>c\<in>set n. atom_matches linuxUserClass c" "d = [] \<or> d = ''$''"
  shows "rests sudoPromptChinese (chinese_prompt n d @ b) =
           (case b of [] \<Rightarrow> [b] | x # b' \<Rightarrow> if x = CHR 0x0A then [b', b] else [b])"
proof -
  let ?zh = "[CHR 0xE7, CHR 0x9A, CHR 0x84, CHR 0xE5, CHR 0xAF, CHR 0x86,
              CHR 0xE7, CHR 0xA0, CHR 0x81, CHR 0xEF, CHR 0xBC, CHR 0x9A]"
  let ?K = "Alt (One (Byte (CHR 0x0A))) Eps"
  have sp: "\<not> atom_matches linuxUserClass (CHR '' '')" "CHR '' '' \<noteq> CHR ''$''"
    by (simp_all add: linuxUserClass_def)
  have "rests sudoPromptChinese (chinese_prompt n d @ b) =
      rests (Seq linuxUserRegex (Seq (lits (CHR '' '' # ?zh)) ?K)) (n @ d @ CHR '' '' # ?zh @ b)"
    unfolding sudoPromptChinese_def rests_Seq_lits chinese_prompt_def by simp
  also have "\<dots> = rests (Seq linuxUserRegex (Seq (One (Byte (CHR '' ''))) (Seq (lits ?zh) ?K)))
      (n @ d @ CHR '' '' # ?zh @ b)"
    by (rule rests_Seq_lits_Cons)
  also have "\<dots> = rests (Seq (lits ?zh) ?K) (?zh @ b)"
    using assms sp by (rule rests_user_byte)
  also have "\<dots> = rests ?K b"
    unfolding rests_Seq_lits by simp
  finally show ?thesis by (simp split: list.splits)
qed

lemma hd_rests_Chinese_prompt:
  assumes "n \<noteq> []" "\<forall>c\<in>set n. atom_matches linuxUserClass c" "d = [] \<or> d = ''$''"
  shows "rests sudoPromptChinese (chinese_prompt n d @ b) \<noteq> [] \<and>
         hd (rests sudoPromptChinese (chinese_prompt n d @ b)) = after_line_break b"
  unfolding rests_Chinese_prompt [OF assms] after_line_break_def
  by (simp split: list.splits)

lemma chinese_prompt_Cons:
  "chinese_prompt n d = CHR ''['' # ''sudo] '' @ n @ d @ CHR '' '' #
     [CHR 0xE7, CHR 0x9A, CHR 0x84, CHR 0xE5, CHR 0xAF, CHR 0x86,
      CHR 0xE7, CHR 0xA0, CHR 0x81, CHR 0xEF, CHR 0xBC, CHR 0x9A]"
  by (simp add: chinese_prompt_def)

lemma bracket_not_in_chinese:
  assumes "\<forall>c\<in>set n. atom_matches linuxUserClass c" "d = [] \<or> d = ''$''"
  shows "CHR ''['' \<notin> set (''sudo] '' @ n @ d @ CHR '' '' #
     [CHR 0xE7, CHR 0x9A, CHR 0x84, CHR 0xE5, CHR 0xAF, CHR 0x86,
      CHR 0xE7, CHR 0xA0, CHR 0x81, CHR 0xEF, CHR 0xBC, CHR 0x9A])"
proof -
  have n1: "CHR ''['' \<notin> set n" using assms(1) class_chars by blast
  have n2: "CHR ''['' \<notin> set d" using assms(2) by auto
  from n1 n2 show ?thesis by simp
qed

lemma first_occurrence_eq:
  assumes "x \<notin> set xs" "x \<notin> set xs'" "xs @ x # ys = xs' @ x # ys'"
  shows "xs = xs' \<and> ys = ys'"
  using assms
proof (induction xs arbitrary: xs')
  case Nil
  then show ?case by (cases xs') auto
next
  case (Cons a xs)
  then show ?case by (cases xs') auto
qed

lemma English_not_at_Chinese:
  assumes "\<forall>c\<in>set n. atom_matches linuxUserClass c" "d = [] \<or> d = ''$''"
  shows "rests sudoPromptEnglish (chinese_prompt n d @ b) = []"
proof -
  let ?zh = "[CHR 0xE7, CHR 0x9A, CHR 0x84, CHR 0xE5, CHR 0xAF, CHR 0x86,
              CHR 0xE7, CHR 0xA0, CHR 0x81, CHR 0xEF, CHR 0xBC, CHR 0x9A]"
  have sp: "CHR '' '' \<notin> set (n @ d)"
  proof -
    have "\<not> atom_matches linuxUserClass (CHR '' '')" by (simp add: linuxUserClass_def)
    with assms(1) have "CHR '' '' \<notin> set n" by blast
    moreover from assms(2) have "CHR '' '' \<notin> set d" by auto
    ultimately show ?thesis by simp
  qed
  have pw: "CHR '' '' \<notin> set ''password''" by simp
  have "\<not> prefix ''[sudo] password for '' (chinese_prompt n d @ b)"
  proof
    assume "prefix ''[sudo] password for '' (chinese_prompt n d @ b)"
    then obtain z where "chinese_prompt n d @ b = ''[sudo] password for '' @ z" by (rule prefixE)
    then have "(n @ d) @ CHR '' '' # (?zh @ b) = ''password'' @ CHR '' '' # (''for '' @ z)"
      by (simp add: chinese_prompt_def)
    then have "n @ d = ''password'' \<and> ?zh @ b = ''for '' @ z"
      by (rule first_occurrence_eq [OF sp pw])
    then show False by simp
  qed
  then show ?thesis unfolding sudoPromptEnglish_def rests_Seq_lits by simp
qed

lemma strip_Chinese:
  assumes "n \<noteq> []" "\<forall>c\<in>set n. atom_matches linuxUserClass c" "d = [] \<or> d = ''$''"
    and b: "rests sudoPromptRegex b = []"
  shows "ReplaceAllString_empty sudoPromptRegex (a @ chinese_prompt n d @ b) = after_line_break b"
proof (induction a rule: length_induct)
  case (1 a)
  let ?E = "Seq (Star AnyByte) sudoPromptEnglish"
  let ?C = "Seq (Star AnyByte) sudoPromptChinese"
  let ?p = "''sudo] '' @ n @ d @ CHR '' '' #
     [CHR 0xE7, CHR 0x9A, CHR 0x84, CHR 0xE5, CHR 0xAF, CHR 0x86,
      CHR 0xE7, CHR 0xA0, CHR 0x81, CHR 0xEF, CHR 0xBC, CHR 0x9A]"
  let ?P = "chinese_prompt n d"
  let ?s = "a @ ?P @ b"
  have P: "?P = CHR ''['' # ?p" by (rule chinese_prompt_Cons)
  have nb: "CHR ''['' \<notin> set ?p" using assms(2,3) by (rule bracket_not_in_chinese)
  from b have bE: "rests ?E b = []" and bC: "rests ?C b = []" unfolding sudoPromptRegex_none by blast+
  have "rests ?C ((CHR ''['' # ?p) @ b) = rests sudoPromptChinese ((CHR ''['' # ?p) @ b)"
    using rests_Chinese_shape nb bC by (rule star_at_prompt)
  then have here: "rests ?C (?P @ b) = rests sudoPromptChinese (?P @ b)"
    unfolding P .
  from hd_rests_Chinese_prompt [OF assms(1-3), of b]
  have ne: "rests ?C (?P @ b) \<noteq> []" and h: "hd (rests ?C (?P @ b)) = after_line_break b"
    unfolding here by blast+
  from hd_star_prepend [OF ne, of a] h
  have neC: "rests ?C ?s \<noteq> []" and hC: "hd (rests ?C ?s) = after_line_break b"
    by simp_all
  from neC have ne': "rests sudoPromptRegex ?s \<noteq> []" unfolding rests_sudoPromptRegex by simp
  have fin: "ReplaceAllString_empty sudoPromptRegex (after_line_break b) = after_line_break b"
  proof -
    have "rests sudoPromptRegex (after_line_break b) = []"
      using b after_line_break_suffix by (rule sudoPromptRegex_none_suffix)
    then show ?thesis by (rule strip_none)
  qed
  show ?case
  proof (cases "rests ?E ?s = []")
    case True
    have "rests sudoPromptRegex ?s = rests ?C ?s"
      unfolding rests_sudoPromptRegex True by (rule append_Nil)
    with hC have "hd (rests sudoPromptRegex ?s) = after_line_break b" by simp
    with strip_step [OF ne'] fin show ?thesis by simp
  next
    case False
    define x where "x = hd (rests ?E ?s)"
    from False have hx: "hd (rests sudoPromptRegex ?s) = x"
      unfolding rests_sudoPromptRegex x_def by (rule hd_append2)
    from False have "x \<in> set (rests ?E ?s)" unfolding x_def by (rule hd_in_set)
    then obtain t where t: "suffix t (a @ (?P @ b))" and x: "x \<in> set (rests sudoPromptEnglish t)"
      unfolding in_rests_Star by blast
    from English_match_shape [OF x] obtain m where
      m: "t = CHR ''['' # m @ x" "CHR ''['' \<notin> set m" by blast
    from t have "suffix t (?P @ b) \<or> (\<exists>t0. t = t0 @ (?P @ b) \<and> suffix t0 a)"
      unfolding suffix_append .
    moreover have ns: "\<not> suffix t (?P @ b)"
    proof
      assume "suffix t (?P @ b)"
      then have "suffix t ((CHR ''['' # ?p) @ b)" unfolding P .
      from suffix_after_bracket [OF this m(1) nb] have "t = ?P @ b \<or> suffix t b" unfolding P .
      then show False
      proof
        assume "t = ?P @ b"
        with x English_not_at_Chinese [OF assms(2,3), of b] show False by simp
      next
        assume "suffix t b"
        with bE have "rests sudoPromptEnglish t = []" unfolding star_none_iff by blast
        with x show False by simp
      qed
    qed
    ultimately obtain t0 where t0: "t = t0 @ (?P @ b)" "suffix t0 a" by blast
    define mm where "mm = CHR ''['' # m"
    define R where "R = ?P @ b"
    have R0: "R ! 0 = CHR ''[''" unfolding R_def P by simp
    have tm: "t = mm @ x" unfolding mm_def using m(1) by simp
    have tR: "t = t0 @ R" unfolding R_def by (rule t0(1))
    have t0ne: "t0 \<noteq> []"
    proof
      assume "t0 = []"
      with t0(1) have "suffix t (?P @ b)" by simp
      with ns show False by simp
    qed
    have len: "length mm \<le> length t0"
    proof (rule ccontr)
      assume "\<not> length mm \<le> length t0"
      then have l: "length t0 < length mm" by simp
      have "(t0 @ R) ! length t0 = CHR ''[''" using R0 by (simp add: nth_append)
      then have "(mm @ x) ! length t0 = CHR ''[''" using tm tR by simp
      with l have e: "mm ! length t0 = CHR ''[''" by (simp add: nth_append)
      from t0ne obtain k where k: "length t0 = Suc k" by (cases t0) auto
      from e l have "m ! k = CHR ''[''" "k < length m" unfolding mm_def k by simp_all
      then have "CHR ''['' \<in> set m" using nth_mem by metis
      with m(2) show False by simp
    qed
    from tm tR have "mm @ x = t0 @ R" by simp
    then obtain us where us: "mm = t0 @ us \<and> us @ x = R \<or> mm @ us = t0 \<and> x = us @ R"
      unfolding append_eq_append_conv2 by blast
    have "\<exists>a'. t0 = mm @ a' \<and> x = a' @ R"
    proof -
      from us show ?thesis
      proof
        assume c: "mm = t0 @ us \<and> us @ x = R"
        with len have "us = []" by simp
        with c have "t0 = mm @ [] \<and> x = [] @ R" by simp
        then show ?thesis by blast
      next
        assume "mm @ us = t0 \<and> x = us @ R"
        then have "t0 = mm @ us \<and> x = us @ R" by simp
        then show ?thesis by blast
      qed
    qed
    then obtain a' where a': "t0 = mm @ a'" "x = a' @ R" by blast
    from suffix_length_le [OF t0(2)] a'(1) have "length a' < length a"
      unfolding mm_def by simp
    with "1.IH" have "ReplaceAllString_empty sudoPromptRegex (a' @ ?P @ b) = after_line_break b"
      by blast
    with strip_step [OF ne'] hx a'(2) show ?thesis unfolding R_def by simp
  qed
qed

lemma star_rests_all:
  "x \<in> set (star_rests a t) \<Longrightarrow> \<exists>m. t = m @ x \<and> (\<forall>c\<in>set m. atom_matches a c)"
proof (induction t)
  case Nil
  then show ?case by simp
next
  case (Cons c t)
  show ?case
  proof (cases "x = c # t")
    case True
    then show ?thesis by simp
  next
    case False
    with Cons.prems have am: "atom_matches a c" and x: "x \<in> set (star_rests a t)"
      by (auto split: if_splits)
    from Cons.IH [OF x] obtain m where m: "t = m @ x" "\<forall>c\<in>set m. atom_matches a c" by blast
    with am have "c # t = (c # m) @ x \<and> (\<forall>c\<in>set (c # m). atom_matches a c)" by simp
    then show ?thesis by blast
  qed
qed

lemma user_match_shape:
  assumes "x \<in> set (rests (Seq linuxUserRegex (Seq (One (Byte q)) k)) t)"
  shows "\<exists>n d y. t = n @ d @ q # y \<and> n \<noteq> [] \<and> (\<forall>c\<in>set n. atom_matches linuxUserClass c) \<and>
           (d = [] \<or> d = ''$'') \<and> x \<in> set (rests k y)"
proof -
  from assms obtain u where u: "u \<in> set (rests linuxUserRegex t)"
    and x: "x \<in> set (rests (Seq (One (Byte q)) k) u)" by auto
  from u obtain v where v: "v \<in> set (rests (Plus linuxUserClass) t)"
    and uv: "u \<in> set (rests (Opt (One (Byte (CHR ''$'')))) v)"
    unfolding linuxUserRegex_def by auto
  from v obtain c t' where t: "t = c # t'" and c: "atom_matches linuxUserClass c"
    and v': "v \<in> set (star_rests linuxUserClass t')"
    by (auto split: list.splits if_splits)
  from star_rests_all [OF v'] obtain m where m: "t' = m @ v" "\<forall>c\<in>set m. atom_matches linuxUserClass c"
    by blast
  from uv have d: "\<exists>d. v = d @ u \<and> (d = [] \<or> d = ''$'')"
    by (auto split: list.splits if_splits)
  then obtain d where d: "v = d @ u" "d = [] \<or> d = ''$''" by blast
  from x obtain y where y: "u = q # y" "x \<in> set (rests k y)"
    by (auto split: list.splits if_splits)
  from t m(1) d(1) y(1) have "t = (c # m) @ d @ q # y" by simp
  moreover from c m(2) have "\<forall>c\<in>set (c # m). atom_matches linuxUserClass c" by simp
  moreover have "c # m \<noteq> []" by simp
  ultimately show ?thesis using d(2) y(2) by blast
qed

lemma English_prompt_shape:
  assumes "rests sudoPromptEnglish t \<noteq> []"
  shows "\<exists>n d b. t = english_prompt n d @ b \<and> n \<noteq> [] \<and>
           (\<forall>c\<in>set n. atom_matches linuxUserClass c) \<and> (d = [] \<or> d = ''$'')"
proof -
  let ?R = "Seq linuxUserRegex (Seq (One (Byte (CHR '':''))) (Alt (One (Byte (CHR 0x0A))) Eps))"
  from assms obtain x where "x \<in> set (rests sudoPromptEnglish t)"
    by (cases "rests sudoPromptEnglish t") auto
  then have p: "prefix ''[sudo] password for '' t"
    and x: "x \<in> set (rests ?R (drop (length ''[sudo] password for '') t))"
    unfolding sudoPromptEnglish_def rests_Seq_lits by (auto split: if_splits)
  from user_match_shape [OF x] obtain n d y where
    s: "drop (length ''[sudo] password for '') t = n @ d @ CHR '':'' # y"
    and n: "n \<noteq> []" "\<forall>c\<in>set n. atom_matches linuxUserClass c" "d = [] \<or> d = ''$''" by blast
  from p have "t = ''[sudo] password for '' @ drop (length ''[sudo] password for '') t"
    by (metis append_eq_conv_conj prefixE)
  with s have "t = english_prompt n d @ y" by (simp add: english_prompt_def)
  with n show ?thesis by blast
qed

lemma Chinese_prompt_shape:
  assumes "rests sudoPromptChinese t \<noteq> []"
  shows "\<exists>n d b. t = chinese_prompt n d @ b \<and> n \<noteq> [] \<and>
           (\<forall>c\<in>set n. atom_matches linuxUserClass c) \<and> (d = [] \<or> d = ''$'')"
proof -
  let ?zh = "[CHR 0xE7, CHR 0x9A, CHR 0x84, CHR 0xE5, CHR 0xAF, CHR 0x86,
              CHR 0xE7, CHR 0xA0, CHR 0x81, CHR 0xEF, CHR 0xBC, CHR 0x9A]"
  let ?K = "Alt (One (Byte (CHR 0x0A))) Eps"
  from assms obtain x where "x \<in> set (rests sudoPromptChinese t)"
    by (cases "rests sudoPromptChinese t") auto
  then have p: "prefix ''[sudo] '' t"
    and x: "x \<in> set (rests (Seq linuxUserRegex (Seq (lits (CHR '' '' # ?zh)) ?K))
                 (drop (length ''[sudo] '') t))"
    unfolding sudoPromptChinese_def rests_Seq_lits by (auto split: if_splits)
  from x have "x \<in> set (rests (Seq linuxUserRegex (Seq (One (Byte (CHR '' ''))) (Seq (lits ?zh) ?K)))
                 (drop (length ''[sudo] '') t))"
    unfolding rests_Seq_lits_Cons .
  from user_match_shape [OF this] obtain n d y where
    s: "drop (length ''[sudo] '') t = n @ d @ CHR '' '' # y"
    and n: "n \<noteq> []" "\<forall>c\<in>set n. atom_matches linuxUserClass c" "d = [] \<or> d = ''$''"
    and y: "x \<in> set (rests (Seq (lits ?zh) ?K) y)" by blast
  from y have "prefix ?zh y" unfolding rests_Seq_lits by (auto split: if_splits)
  then obtain b where b: "y = ?zh @ b" by (rule prefixE)
  from p have "t = ''[sudo] '' @ drop (length ''[sudo] '') t"
    by (metis append_eq_conv_conj prefixE)
  with s b have "t = chinese_prompt n d @ b" by (simp add: chinese_prompt_def)
  with n show ?thesis by blast
qed

lemma last_prompt:
  assumes "rests sudoPromptRegex s \<noteq> []"
  shows "\<exists>a n d b. n \<noteq> [] \<and> (\<forall>c\<in>set n. atom_matches linuxUserClass c) \<and> (d = [] \<or> d = ''$'') \<and>
           rests sudoPromptRegex b = [] \<and>
           (s = a @ english_prompt n d @ b \<or> s = a @ chinese_prompt n d @ b)"
proof -
  let ?Q = "\<lambda>t. suffix t s \<and> (rests sudoPromptEnglish t \<noteq> [] \<or> rests sudoPromptChinese t \<noteq> [])"
  from assms have "\<exists>t. ?Q t"
    unfolding sudoPromptRegex_none star_none_iff by blast
  then obtain t0 where "?Q t0" by blast
  from ex_has_least_nat [of ?Q t0 length, OF this] obtain t where
    t: "suffix t s" "rests sudoPromptEnglish t \<noteq> [] \<or> rests sudoPromptChinese t \<noteq> []"
    and least: "\<And>u. ?Q u \<Longrightarrow> length t \<le> length u" by blast
  from t(1) obtain a where a: "s = a @ t" by (auto simp: suffix_def)
  have rest: "rests sudoPromptRegex b = []" if "t = p @ b" "p \<noteq> []" for p b
  proof -
    have "rests sudoPromptEnglish u = [] \<and> rests sudoPromptChinese u = []" if u: "suffix u b" for u
    proof (rule ccontr)
      assume n: "\<not> (rests sudoPromptEnglish u = [] \<and> rests sudoPromptChinese u = [])"
      from u \<open>t = p @ b\<close> have "suffix u t" by (simp add: suffix_append)
      then have "suffix u s" using t(1) by (rule suffix_order.trans)
      with n have "length t \<le> length u" by (intro least) blast
      moreover from u have "length u \<le> length b" by (rule suffix_length_le)
      moreover from \<open>p \<noteq> []\<close> have "0 < length p" by simp
      ultimately show False using \<open>t = p @ b\<close> by simp
    qed
    then show ?thesis unfolding sudoPromptRegex_none star_none_iff by blast
  qed
  from t(2) show ?thesis
  proof
    assume "rests sudoPromptEnglish t \<noteq> []"
    from English_prompt_shape [OF this] obtain n d b where
      s: "t = english_prompt n d @ b" and n: "n \<noteq> []" "\<forall>c\<in>set n. atom_matches linuxUserClass c"
        "d = [] \<or> d = ''$''" by blast
    have "english_prompt n d \<noteq> []" by (simp add: english_prompt_def)
    with s have "rests sudoPromptRegex b = []" by (rule rest)
    with a s n show ?thesis by blast
  next
    assume "rests sudoPromptChinese t \<noteq> []"
    from Chinese_prompt_shape [OF this] obtain n d b where
      s: "t = chinese_prompt n d @ b" and n: "n \<noteq> []" "\<forall>c\<in>set n. atom_matches linuxUserClass c"
        "d = [] \<or> d = ''$''" by blast
    have "chinese_prompt n d \<noteq> []" by (simp add: chinese_prompt_def)
    with s have "rests sudoPromptRegex b = []" by (rule rest)
    with a s n show ?thesis by blast
  qed
qed

text \<open>
  Claim C2, as amended. What removing the matches of the prompt pattern leaves is always a
  suffix of the output, and it is this one: an output in which the pattern matches nowhere
  is left as it is; an output that holds a prompt of sudo, English or Chinese, for a user
  name \<open>n\<close> with the optional \<^verbatim>\<open>$\<close>, followed by a text \<open>b\<close> in which the pattern matches
  nowhere, is reduced to \<open>b\<close> without the line break that follows the prompt. Every output
  in which the pattern matches somewhere is of that kind. So with the last prompt of the
  output everything before it is removed, however many lines of the command's own output
  that is, and nothing after it but that line break.
\<close>

theorem sudo_prompt_strip_exact:
  assumes "n \<noteq> []" "\<forall>c\<in>set n. atom_matches linuxUserClass c" "d = [] \<or> d = ''$''"
    and "find_match sudoPromptRegex b = None"
  shows "suffix (ReplaceAllString_empty sudoPromptRegex s) s \<and>
         (find_match sudoPromptRegex s = None \<longrightarrow> ReplaceAllString_empty sudoPromptRegex s = s) \<and>
         ReplaceAllString_empty sudoPromptRegex (a @ english_prompt n d @ b) = after_line_break b \<and>
         ReplaceAllString_empty sudoPromptRegex (a @ chinese_prompt n d @ b) = after_line_break b \<and>
         (find_match sudoPromptRegex s \<noteq> None \<longrightarrow>
            (\<exists>a' n' d' b'. n' \<noteq> [] \<and> (\<forall>c\<in>set n'. atom_matches linuxUserClass c) \<and>
               (d' = [] \<or> d' = ''$'') \<and> find_match sudoPromptRegex b' = None \<and>
               (s = a' @ english_prompt n' d' @ b' \<or> s = a' @ chinese_prompt n' d' @ b')))"
proof -
  from assms(4) have b: "rests sudoPromptRegex b = []" by (rule find_match_None_rests)
  have c1: "suffix (ReplaceAllString_empty sudoPromptRegex s) s" by (rule strip_suffix)
  have c2: "find_match sudoPromptRegex s = None \<longrightarrow> ReplaceAllString_empty sudoPromptRegex s = s"
    using find_match_None_rests strip_none by blast
  have c3: "ReplaceAllString_empty sudoPromptRegex (a @ english_prompt n d @ b) = after_line_break b"
    using assms(1-3) b by (rule strip_English)
  have c4: "ReplaceAllString_empty sudoPromptRegex (a @ chinese_prompt n d @ b) = after_line_break b"
    using assms(1-3) b by (rule strip_Chinese)
  have c5: "find_match sudoPromptRegex s \<noteq> None \<longrightarrow>
            (\<exists>a' n' d' b'. n' \<noteq> [] \<and> (\<forall>c\<in>set n'. atom_matches linuxUserClass c) \<and>
               (d' = [] \<or> d' = ''$'') \<and> find_match sudoPromptRegex b' = None \<and>
               (s = a' @ english_prompt n' d' @ b' \<or> s = a' @ chinese_prompt n' d' @ b'))"
  proof
    assume "find_match sudoPromptRegex s \<noteq> None"
    have "rests sudoPromptRegex s \<noteq> []"
    proof
      assume "rests sudoPromptRegex s = []"
      then have "find_match sudoPromptRegex s = None" by (rule find_match_None)
      with \<open>find_match sudoPromptRegex s \<noteq> None\<close> show False by simp
    qed
    from last_prompt [OF this] obtain a' n' d' b' where
      l: "n' \<noteq> []" "\<forall>c\<in>set n'. atom_matches linuxUserClass c" "d' = [] \<or> d' = ''$''"
        "rests sudoPromptRegex b' = []"
        "s = a' @ english_prompt n' d' @ b' \<or> s = a' @ chinese_prompt n' d' @ b'" by blast
    from l(4) have "find_match sudoPromptRegex b' = None" by (rule find_match_None)
    with l(1,2,3,5) show "\<exists>a' n' d' b'. n' \<noteq> [] \<and> (\<forall>c\<in>set n'. atom_matches linuxUserClass c) \<and>
               (d' = [] \<or> d' = ''$'') \<and> find_match sudoPromptRegex b' = None \<and>
               (s = a' @ english_prompt n' d' @ b' \<or> s = a' @ chinese_prompt n' d' @ b')" by blast
  qed
  from c1 c2 c3 c4 c5 show ?thesis by (intro conjI)
qed

theorem sudo_prompt_strip_exact_witness:
  "find_match sudoPromptRegex ''hello [sudo] world'' = None \<and>
   ReplaceAllString_empty sudoPromptRegex ''hello [sudo] world'' = ''hello [sudo] world'' \<and>
   ReplaceAllString_empty sudoPromptRegex
      ''line one\<newline>[sudo] password for bob:\<newline>line two\<newline>[sudo] password for alice$:\<newline>root\<newline>more\<newline>'' =
      ''root\<newline>more\<newline>'' \<and>
   ReplaceAllString_empty sudoPromptRegex
      (''line one\<newline>[sudo] password for bob:\<newline>line two\<newline>'' @ chinese_prompt ''alice'' [] @ ''root'') =
      ''root''"
proof -
  let ?a = "''line one\<newline>[sudo] password for bob:\<newline>line two\<newline>''"
  have u: "\<forall>c\<in>set ''alice''. atom_matches linuxUserClass c"
    by (simp add: linuxUserClass_def)
  have n: "''alice'' \<noteq> []" by simp
  have d1: "''$'' = [] \<or> ''$'' = ''$''" by simp
  have d2: "[] = [] \<or> [] = ''$''" by simp
  have b1: "find_match sudoPromptRegex ''\<newline>root\<newline>more\<newline>'' = None" by code_simp
  have b2: "find_match sudoPromptRegex ''root'' = None" by code_simp
  have s: "find_match sudoPromptRegex ''hello [sudo] world'' = None" by code_simp
  note first = sudo_prompt_strip_exact [OF n u d1 b1, of "''hello [sudo] world''" ?a]
  note second = sudo_prompt_strip_exact [OF n u d2 b2, of "[]" ?a]
  note k = first [THEN conjunct2, THEN conjunct1]
  note e = first [THEN conjunct2, THEN conjunct2, THEN conjunct1]
  note c = second [THEN conjunct2, THEN conjunct2, THEN conjunct2, THEN conjunct1]
  from s k e c show ?thesis by (simp add: english_prompt_def after_line_break_def)
qed

text \<open>
  Claim C2 as stated fails: two lines that the command printed before the prompt are
  removed together with the prompt line.
\<close>

theorem sudo_prompt_strip_counterexample:
  "ReplaceAllString_empty sudoPromptRegex
      ''line one\<newline>line two\<newline>[sudo] password for alice:\<newline>root\<newline>'' = ''root\<newline>'' \<and>
   HandleOutput_text ''line one\<newline>line two\<newline>[sudo] password for alice:\<newline>root\<newline>'' = ''root''"
  by code_simp

subsection \<open>The task timeout and the channels\<close>

lemma Start_append:
  "Start successId taskID seconds taskTimeout result (xs @ ys) =
   foldl (step successId taskID seconds taskTimeout) (Start successId taskID seconds taskTimeout result xs) ys"
  by (simp add: Start_def)

text \<open>
  Claim C4 fails on the code. Once the timer has closed \<^verbatim>\<open>detailOutput\<close> while the goroutine
  of \<^verbatim>\<open>BatchRun\<close> is still in its loop or before its deferred \<^verbatim>\<open>close\<close>, that goroutine
  panics within its next two steps: its send meets a closed channel, or its deferred
  \<^verbatim>\<open>close(t.detailOutput)\<close> closes a closed channel.
\<close>

theorem timeout_then_batch_panics:
  assumes "panicked s = None" "main_at s \<noteq> StartReturned" "detail_closed s" "task_buffer s = []"
    and "batch_at s = Forwarding rs successCount failedCount \<or> batch_at s = DeferCloseDetail"
  shows "panicked (foldl (step successId taskID seconds taskTimeout) s [Batch, Batch]) \<noteq> None"
proof -
  from assms(5) show ?thesis
  proof
    assume "batch_at s = DeferCloseDetail"
    with assms(1-4) show ?thesis by (simp add: step_def batch_step_def)
  next
    assume f: "batch_at s = Forwarding rs successCount failedCount"
    show ?thesis
    proof (cases rs)
      case (Cons v rs')
      with f assms(1-4) show ?thesis by (simp add: step_def batch_step_def)
    next
      case Nil
      with f assms(1-4) show ?thesis by (simp add: step_def batch_step_def)
    qed
  qed
qed

theorem timeout_then_batch_panics_witness:
  "panicked (Start ''success'' ''20240101120000'' 6 1 ex_results [Batch, Timer, Timer]) = None \<and>
   detail_closed (Start ''success'' ''20240101120000'' 6 1 ex_results [Batch, Timer, Timer]) \<and>
   panicked (Start ''success'' ''20240101120000'' 6 1 ex_results [Batch, Timer, Timer, Batch, Batch]) \<noteq> None"
proof -
  let ?s = "Start ''success'' ''20240101120000'' 6 1 ex_results [Batch, Timer, Timer]"
  have a: "panicked ?s = None" "main_at ?s \<noteq> StartReturned" "detail_closed ?s" "task_buffer ?s = []"
    "batch_at ?s = Forwarding [\<lparr> r_Host = ''db1'', r_Status = ''success'', r_Message = ''done'' \<rparr>] 1 0
       \<or> batch_at ?s = DeferCloseDetail"
    by (simp_all add: Start_def Start_init_def step_def batch_step_def timer_step_def ex_results_def)
  from timeout_then_batch_panics [OF a, of "''success''" "''20240101120000''" 6 1]
  have "panicked (Start ''success'' ''20240101120000'' 6 1 ex_results ([Batch, Timer, Timer] @ [Batch, Batch])) \<noteq> None"
    unfolding Start_append .
  with a show ?thesis by simp
qed

text \<open>
  Two runs with a task timeout of one second and the results of two hosts. In the first the
  timer fires after the first result was forwarded, and forwarding the second panics. In
  the second \<^verbatim>\<open>BatchRun\<close> completes and closes both channels, the timer fires before
  \<^verbatim>\<open>Start\<close> has returned, and the timer's \<^verbatim>\<open>close\<close> panics.
\<close>

theorem timeout_panic_example:
  "panicked (Start ''success'' ''20240101120000'' 6 1 ex_results [Batch, Timer, Timer, Batch]) =
     Some ''send on closed channel'' \<and>
   panicked (Start ''success'' ''20240101120000'' 6 1 ex_results
     [Batch, Batch, Batch, Batch, Main, Batch, Main, Timer, Timer]) = Some ''close of closed channel''"
  by (simp add: Start_def Start_init_def step_def batch_step_def timer_step_def main_step_def ex_results_def)

end
